theory Spec2Isabelle
  imports Main "HOL-Library.Word" "HOL-Library.AList"
begin

section \<open>The activity channel (package buckets)\<close>

text \<open>
  \<^verbatim>\<open>type ActivityChannel chan bool\<close>, made by \<^verbatim>\<open>make(chan bool, 1)\<close>: a buffered channel.
  The model is the buffer, oldest value first, together with the capacity that
  \<^verbatim>\<open>NewActivityChannel\<close> gives it.
\<close>

type_synonym ActivityChannel = "bool list"

definition ActivityChannel_cap :: nat where
  "ActivityChannel_cap = 1"

definition NewActivityChannel :: ActivityChannel where
  "NewActivityChannel = []"

text \<open>
  \<^verbatim>\<open>select { case m <- true: default: }\<close>: the send happens when the buffer has room,
  otherwise the default branch is taken and nothing changes.
\<close>

definition ReportActivity :: "ActivityChannel \<Rightarrow> ActivityChannel" where
  "ReportActivity m = (if length m < ActivityChannel_cap then m @ [True] else m)"

text \<open>
  \<^verbatim>\<open>select { case <-m: return true; default: return false }\<close>: a buffered value is
  received (and dropped) when there is one. The result is the returned boolean and the
  channel afterwards.
\<close>

definition ActivityDetected :: "ActivityChannel \<Rightarrow> bool \<times> ActivityChannel" where
  "ActivityDetected m = (case m of [] \<Rightarrow> (False, []) | _ # rest \<Rightarrow> (True, rest))"

text \<open>A history of calls on one channel, for stating properties of every reachable channel.\<close>

datatype signal_call = CallReportActivity | CallActivityDetected

fun signal_calls :: "signal_call list \<Rightarrow> ActivityChannel \<Rightarrow> ActivityChannel" where
  "signal_calls [] m = m"
| "signal_calls (CallReportActivity # cs) m = signal_calls cs (ReportActivity m)"
| "signal_calls (CallActivityDetected # cs) m = signal_calls cs (snd (ActivityDetected m))"


section \<open>The gRPC endpoint (package grpc)\<close>

text \<open>
  The messages of \<^verbatim>\<open>quota_service.proto\<close> (proto2): every field is optional, which the
  generated Go code holds as a pointer; \<open>None\<close> is the nil pointer. The request itself
  is taken to be non-nil, as the gRPC server always hands the handler a decoded message.
\<close>

record AllowRequest =
  Namespace :: "string option"
  Name :: "string option"
  NumTokensRequested :: "64 word option"
  MaxWaitMillisOverride :: "64 word option"

text \<open>
  The enum \<^verbatim>\<open>AllowResponse.Status\<close>. A Go variable of this type starts at the zero value,
  which none of the four constants has; \<open>AllowResponse_Status_0\<close> stands for it.
\<close>

datatype AllowResponse_Status =
  AllowResponse_Status_0
  | AllowResponse_OK
  | AllowResponse_OK_WAIT
  | AllowResponse_REJECTED
  | AllowResponse_FAILED

record AllowResponse =
  Status :: "AllowResponse_Status option"
  NumTokensGranted :: "64 word option"
  WaitMillis :: "64 word option"

text \<open>
  The getters that the protocol compiler generates for a proto2 message without
  explicit defaults: the value behind the pointer, or the zero value of the type.
\<close>

definition GetNamespace :: "AllowRequest \<Rightarrow> string" where
  "GetNamespace req = (case Namespace req of None \<Rightarrow> [] | Some v \<Rightarrow> v)"

definition GetName :: "AllowRequest \<Rightarrow> string" where
  "GetName req = (case Name req of None \<Rightarrow> [] | Some v \<Rightarrow> v)"

definition GetNumTokensRequested :: "AllowRequest \<Rightarrow> 64 word" where
  "GetNumTokensRequested req = (case NumTokensRequested req of None \<Rightarrow> 0 | Some v \<Rightarrow> v)"

definition GetMaxWaitMillisOverride :: "AllowRequest \<Rightarrow> 64 word" where
  "GetMaxWaitMillisOverride req = (case MaxWaitMillisOverride req of None \<Rightarrow> 0 | Some v \<Rightarrow> v)"

text \<open>
  The errors that \<^verbatim>\<open>g.qs.Allow\<close> can hand back. The handler tells a
  \<^verbatim>\<open>quotaservice.QuotaServiceError\<close> (with its \<^verbatim>\<open>Reason\<close>) from any other error value.
  The package quotaservice is not among the sources: the three reasons are the ones the
  handler names, \<open>ER_other\<close> is any further value of the reason type.
\<close>

datatype ErrorReason = ER_NO_SUCH_BUCKET | ER_REJECTED | ER_TIMED_OUT_WAITING | ER_other nat

datatype error = QuotaServiceError ErrorReason | OtherError string

text \<open>
  \<^verbatim>\<open>time.Duration\<close> is an \<^verbatim>\<open>int64\<close> count of nanoseconds; \<^verbatim>\<open>Nanoseconds()\<close> returns that
  count, and \<^verbatim>\<open>time.Millisecond\<close> is the constant 1000000.
\<close>

type_synonym Duration = "64 word"

definition Millisecond :: Duration where
  "Millisecond = 1000000"

definition Nanoseconds :: "Duration \<Rightarrow> 64 word" where
  "Nanoseconds d = d"

text \<open>
  The service behind the endpoint, \<^verbatim>\<open>quotaservice.QuotaService\<close>, is an interface whose
  implementation is not among the sources. The handler is modelled over what one call
  \<^verbatim>\<open>Allow(namespace, name, numTokensRequested, maxWaitMillisOverride)\<close> returns:
  \<^verbatim>\<open>(granted, wait, err)\<close>, with \<open>None\<close> for a nil error.
\<close>

type_synonym QuotaService =
  "string \<Rightarrow> string \<Rightarrow> 64 word \<Rightarrow> 64 word \<Rightarrow> 64 word \<times> Duration \<times> error option"

definition invalid :: "AllowRequest \<Rightarrow> bool" where
  "invalid req \<longleftrightarrow>
     GetName req = [] \<or> GetNamespace req = [] \<or>
     (NumTokensRequested req \<noteq> None \<and> GetNumTokensRequested req = 0)"

definition Allow :: "QuotaService \<Rightarrow> AllowRequest \<Rightarrow> AllowResponse" where
  "Allow qs req =
    (let rsp = \<lparr>Status = None, NumTokensGranted = None, WaitMillis = None\<rparr> in
     if invalid req then rsp\<lparr>Status := Some AllowResponse_FAILED\<rparr>
     else
       let numTokensRequested =
             (if NumTokensRequested req \<noteq> None then GetNumTokensRequested req else 1);
           maxWaitMillisOverride =
             (if MaxWaitMillisOverride req \<noteq> None then GetMaxWaitMillisOverride req else - 1);
           (granted, wait, err) =
             qs (GetNamespace req) (GetName req) numTokensRequested maxWaitMillisOverride
       in (case err of
             Some (QuotaServiceError reason) \<Rightarrow>
               rsp\<lparr>Status := Some (case reason of
                   ER_NO_SUCH_BUCKET \<Rightarrow> AllowResponse_REJECTED
                 | ER_REJECTED \<Rightarrow> AllowResponse_REJECTED
                 | ER_TIMED_OUT_WAITING \<Rightarrow> AllowResponse_REJECTED
                 | ER_other _ \<Rightarrow> AllowResponse_Status_0)\<rparr>
           | Some (OtherError _) \<Rightarrow> rsp\<lparr>Status := Some AllowResponse_FAILED\<rparr>
           | None \<Rightarrow>
               rsp\<lparr>NumTokensGranted := Some granted,
                   WaitMillis := Some (Nanoseconds wait),
                   Status := Some (if 0 <s wait then AllowResponse_OK_WAIT
                                   else AllowResponse_OK)\<rparr>))"

text \<open>
  Three services and two requests on which the handler is run: a service that grants what
  was asked for after a wait of one millisecond, one that fails with an error of its own,
  and one that grants what was asked for at once; a request for one token, and a request
  that gives back five tokens.
\<close>

definition qs_grant_after_1ms :: QuotaService where
  "qs_grant_after_1ms namespace name numTokens maxWait = (numTokens, 1 * Millisecond, None)"

definition qs_internal_error :: QuotaService where
  "qs_internal_error namespace name numTokens maxWait =
     (0, 0, Some (OtherError ''backend down''))"

definition qs_echo :: QuotaService where
  "qs_echo namespace name numTokens maxWait = (numTokens, 0, None)"

definition example_request :: AllowRequest where
  "example_request =
     \<lparr>Namespace = Some ''ns'', Name = Some ''b'', NumTokensRequested = None,
      MaxWaitMillisOverride = None\<rparr>"

definition example_request_negative :: AllowRequest where
  "example_request_negative =
     \<lparr>Namespace = Some ''ns'', Name = Some ''b'', NumTokensRequested = Some (- 5),
      MaxWaitMillisOverride = None\<rparr>"


section \<open>Configuration (package configs)\<close>

text \<open>
  Modelled from the spec: the package configs, which declares \<^verbatim>\<open>ServiceConfig\<close>,
  \<^verbatim>\<open>NamespaceConfig\<close> and \<^verbatim>\<open>BucketConfig\<close>, is not among the sources. The records carry
  the fields the container reads (\<^verbatim>\<open>GlobalDefaultBucket\<close>, \<^verbatim>\<open>Namespaces\<close>,
  \<^verbatim>\<open>DefaultBucket\<close>, \<^verbatim>\<open>DynamicBucketTemplate\<close>, \<^verbatim>\<open>MaxDynamicBuckets\<close>, \<^verbatim>\<open>Buckets\<close>,
  \<^verbatim>\<open>MaxIdleMillis\<close>) and the rate and capacity the spec names. An optional configuration
  is a pointer in Go: \<open>None\<close> is nil. A Go map from names to configurations is an
  association list, in the order in which \<^verbatim>\<open>range\<close> happens to visit it; the values of
  these maps are taken to be non-nil. \<^verbatim>\<open>MaxDynamicBuckets\<close> is a Go \<^verbatim>\<open>int\<close>; it is only
  compared with the number of entries of a map, so it is an unbounded integer here.
\<close>

record BucketConfig =
  Rate :: "64 word"
  Capacity :: "64 word"
  MaxIdleMillis :: "64 word"

record NamespaceConfig =
  DefaultBucket :: "BucketConfig option"
  DynamicBucketTemplate :: "BucketConfig option"
  MaxDynamicBuckets :: int
  Buckets :: "(string \<times> BucketConfig) list"

record ServiceConfig =
  GlobalDefaultBucket :: "BucketConfig option"
  Namespaces :: "(string \<times> NamespaceConfig) list"


section \<open>Buckets, namespaces and the container (package buckets)\<close>

definition GLOBAL_NAMESPACE :: string where
  "GLOBAL_NAMESPACE = ''___GLOBAL___''"

definition DEFAULT_BUCKET_NAME :: string where
  "DEFAULT_BUCKET_NAME = ''___DEFAULT_BUCKET___''"

text \<open>
  Buckets and namespaces are objects that the container, the watcher goroutines and the
  callers of \<^verbatim>\<open>FindBucket\<close> share by reference, so they live in a store and are named by
  their address. A \<^verbatim>\<open>Bucket\<close> is an interface; what the container can observe of an
  implementation is its identity, \<^verbatim>\<open>Config()\<close>, \<^verbatim>\<open>Dynamic()\<close> and the embedded
  \<^verbatim>\<open>ActivityChannel\<close>; what \<^verbatim>\<open>Destroy()\<close> does inside a bucket is the implementation's
  own business, and the model records the call in the trace.
\<close>

type_synonym bucket_ref = nat
type_synonym namespace_ref = nat

record Bucket =
  bucket_namespace :: string
  bucket_name :: string
  bucket_cfg :: BucketConfig
  bucket_dyn :: bool
  bucket_activity :: ActivityChannel

text \<open>
  \<^verbatim>\<open>type namespace struct\<close>. The map \<^verbatim>\<open>buckets\<close> is an association list with one entry
  for each key, because \<^verbatim>\<open>countDynamicBuckets\<close> ranges over it. The embedded
  \<^verbatim>\<open>sync.RWMutex\<close> shows in the model as the lock events of the trace.
\<close>

record namespace =
  ns_cfg :: NamespaceConfig
  ns_buckets :: "(string \<times> bucket_ref) list"
  ns_defaultBucket :: "bucket_ref option"

text \<open>
  A goroutine that runs \<^verbatim>\<open>ns.watch(bucketName, bucket, freq)\<close> and waits for a tick.
\<close>

record watcher =
  watch_ns :: namespace_ref
  watch_bucketName :: string
  watch_bucket :: bucket_ref
  watch_freq :: Duration

text \<open>The calls on shared objects, in the order in which they happen.\<close>

datatype event =
  EvNewBucket bucket_ref
  | EvReportActivity bucket_ref
  | EvDestroy bucket_ref
  | EvRLock namespace_ref
  | EvRUnlock namespace_ref
  | EvLock namespace_ref
  | EvUnlock namespace_ref
  | EvDelete namespace_ref string

text \<open>
  \<^verbatim>\<open>type BucketContainer struct\<close> (fields \<open>bc_cfg\<close>, \<open>bc_namespaces\<close>,
  \<open>bc_defaultBucket\<close>; the factory \<^verbatim>\<open>bf\<close> is the function \<open>NewBucket\<close> below), together
  with the memory it points into, the watcher goroutines that are alive, and the trace.
\<close>

record system =
  bc_cfg :: ServiceConfig
  bc_namespaces :: "string \<rightharpoonup> namespace_ref"
  bc_defaultBucket :: "bucket_ref option"
  bucket_heap :: "bucket_ref \<rightharpoonup> Bucket"
  bucket_next :: bucket_ref
  namespace_heap :: "namespace_ref \<rightharpoonup> namespace"
  namespace_next :: namespace_ref
  watchers :: "watcher list"
  trace :: "event list"

definition emit :: "event \<Rightarrow> system \<Rightarrow> system" where
  "emit e s = s\<lparr>trace := trace s @ [e]\<rparr>"

text \<open>Following a (non-nil) pointer, and writing through it.\<close>

definition the_bucket :: "system \<Rightarrow> bucket_ref \<Rightarrow> Bucket" where
  "the_bucket s b = the (bucket_heap s b)"

definition the_namespace :: "system \<Rightarrow> namespace_ref \<Rightarrow> namespace" where
  "the_namespace s ns = the (namespace_heap s ns)"

definition update_bucket :: "bucket_ref \<Rightarrow> (Bucket \<Rightarrow> Bucket) \<Rightarrow> system \<Rightarrow> system" where
  "update_bucket b f s = s\<lparr>bucket_heap := (bucket_heap s)(b \<mapsto> f (the_bucket s b))\<rparr>"

definition update_namespace ::
  "namespace_ref \<Rightarrow> (namespace \<Rightarrow> namespace) \<Rightarrow> system \<Rightarrow> system" where
  "update_namespace ns f s =
     s\<lparr>namespace_heap := (namespace_heap s)(ns \<mapsto> f (the_namespace s ns))\<rparr>"

text \<open>
  Modelled from the spec: the implementations of \<^verbatim>\<open>BucketFactory\<close> are not among the
  sources. \<^verbatim>\<open>NewBucket(namespace, bucketName, cfg, dyn)\<close> always returns a new, usable
  bucket, never nil, bound to the identity, the configuration and the dynamic flag it
  was given; its \<^verbatim>\<open>ActivityChannel\<close> comes from \<^verbatim>\<open>NewActivityChannel()\<close>, as the comment
  on that type asks.
\<close>

definition NewBucket ::
  "string \<Rightarrow> string \<Rightarrow> BucketConfig \<Rightarrow> bool \<Rightarrow> system \<Rightarrow> bucket_ref \<times> system" where
  "NewBucket namespace bucketName cfg dyn s =
    (let b = bucket_next s;
         obj = \<lparr>bucket_namespace = namespace, bucket_name = bucketName, bucket_cfg = cfg,
                bucket_dyn = dyn, bucket_activity = NewActivityChannel\<rparr>
     in (b, emit (EvNewBucket b)
              (s\<lparr>bucket_heap := (bucket_heap s)(b \<mapsto> obj), bucket_next := Suc b\<rparr>)))"

text \<open>The methods of \<^verbatim>\<open>Bucket\<close> that the container calls.\<close>

definition bucket_ReportActivity :: "bucket_ref \<Rightarrow> system \<Rightarrow> system" where
  "bucket_ReportActivity b s =
     emit (EvReportActivity b)
       (update_bucket b (\<lambda>x. x\<lparr>bucket_activity := ReportActivity (bucket_activity x)\<rparr>) s)"

definition bucket_ActivityDetected :: "bucket_ref \<Rightarrow> system \<Rightarrow> bool \<times> system" where
  "bucket_ActivityDetected b s =
     (fst (ActivityDetected (bucket_activity (the_bucket s b))),
      update_bucket b
        (\<lambda>x. x\<lparr>bucket_activity := snd (ActivityDetected (bucket_activity x))\<rparr>) s)"

definition bucket_Dynamic :: "system \<Rightarrow> bucket_ref \<Rightarrow> bool" where
  "bucket_Dynamic s b = bucket_dyn (the_bucket s b)"

definition bucket_Destroy :: "bucket_ref \<Rightarrow> system \<Rightarrow> system" where
  "bucket_Destroy b s = emit (EvDestroy b) s"

text \<open>
  \<^verbatim>\<open>go ns.watch(bucketName, bucket, freq)\<close>, up to the first receive from the ticker:
  with \<^verbatim>\<open>freq == 0\<close> the goroutine returns at once, otherwise it is alive and waits.
\<close>

definition go_watch ::
  "namespace_ref \<Rightarrow> string \<Rightarrow> bucket_ref \<Rightarrow> Duration \<Rightarrow> system \<Rightarrow> system" where
  "go_watch ns bucketName bucket freq s =
    (if freq = 0 then s
     else s\<lparr>watchers := watchers s @
            [\<lparr>watch_ns = ns, watch_bucketName = bucketName, watch_bucket = bucket,
              watch_freq = freq\<rparr>]\<rparr>)"

text \<open>
  The end of \<^verbatim>\<open>watch\<close>, after the loop: \<^verbatim>\<open>ns.Lock(); defer ns.Unlock();
  delete(ns.buckets, bucketName); bucket.Destroy()\<close>. The deferred unlock runs when the
  function returns, which ends the goroutine.
\<close>

definition watch_remove :: "watcher \<Rightarrow> system \<Rightarrow> system" where
  "watch_remove w s =
    (let s1 = emit (EvLock (watch_ns w)) s;
         s2 = emit (EvDelete (watch_ns w) (watch_bucketName w))
                (update_namespace (watch_ns w)
                   (\<lambda>n. n\<lparr>ns_buckets := AList.delete (watch_bucketName w) (ns_buckets n)\<rparr>) s1);
         s3 = bucket_Destroy (watch_bucket w) s2;
         s4 = emit (EvUnlock (watch_ns w)) s3
     in s4\<lparr>watchers := remove1 w (watchers s4)\<rparr>)"

text \<open>
  One turn of the loop of \<^verbatim>\<open>watch\<close>, run when the ticker of a waiting watcher fires:
  \<^verbatim>\<open>keepRunning = bucket.ActivityDetected()\<close>, and the loop is left when that is false.
\<close>

definition watch_tick :: "watcher \<Rightarrow> system \<Rightarrow> system" where
  "watch_tick w s =
    (let (keepRunning, s1) = bucket_ActivityDetected (watch_bucket w) s
     in if keepRunning then s1 else watch_remove w s1)"

definition createNewNamedBucketFromCfg ::
  "string \<Rightarrow> string \<Rightarrow> namespace_ref \<Rightarrow> BucketConfig \<Rightarrow> bool \<Rightarrow> system
     \<Rightarrow> bucket_ref \<times> system" where
  "createNewNamedBucketFromCfg namespace bucketName ns bCfg dyn s =
    (let (bucket, s1) = NewBucket namespace bucketName bCfg dyn s;
         s2 = update_namespace ns
                (\<lambda>n. n\<lparr>ns_buckets := AList.update bucketName bucket (ns_buckets n)\<rparr>) s1;
         s3 = bucket_ReportActivity bucket s2;
         s4 = go_watch ns bucketName bucket (MaxIdleMillis bCfg * Millisecond) s3
     in (bucket, s4))"

text \<open>
  \<^verbatim>\<open>countDynamicBuckets\<close> dereferences \<^verbatim>\<open>bc.namespaces[namespace]\<close>: for a namespace that
  is not configured this is a nil pointer and the call panics, which is \<open>None\<close>.
\<close>

definition countDynamicBuckets :: "string \<Rightarrow> system \<Rightarrow> int option" where
  "countDynamicBuckets namespace s =
    (case bc_namespaces s namespace of
       None \<Rightarrow> None
     | Some ns \<Rightarrow>
         Some (int (length (filter (\<lambda>entry. bucket_Dynamic s (snd entry))
                       (ns_buckets (the_namespace s ns))))))"

text \<open>
  \<^verbatim>\<open>createNewNamedBucket\<close>. The result is \<open>None\<close> for a panic, otherwise the returned
  bucket (\<open>None\<close> for nil) and the new state. When the namespace has neither a
  configuration for the name nor a template, \<^verbatim>\<open>bCfg\<close> stays nil and reading
  \<^verbatim>\<open>bCfg.MaxIdleMillis\<close> panics.
\<close>

definition createNewNamedBucket ::
  "string \<Rightarrow> string \<Rightarrow> namespace_ref \<Rightarrow> system \<Rightarrow> (bucket_ref option \<times> system) option" where
  "createNewNamedBucket namespace bucketName ns s =
    (let cfg = ns_cfg (the_namespace s ns) in
     case map_of (Buckets cfg) bucketName of
       Some bCfg \<Rightarrow>
         (let (bucket, s') = createNewNamedBucketFromCfg namespace bucketName ns bCfg False s
          in Some (Some bucket, s'))
     | None \<Rightarrow>
         (case countDynamicBuckets namespace s of
            None \<Rightarrow> None
          | Some numDynamicBuckets \<Rightarrow>
              if numDynamicBuckets \<ge> MaxDynamicBuckets cfg \<and> MaxDynamicBuckets cfg > 0
              then Some (None, s)
              else (case DynamicBucketTemplate cfg of
                      None \<Rightarrow> None
                    | Some bCfg \<Rightarrow>
                        (let (bucket, s') =
                               createNewNamedBucketFromCfg namespace bucketName ns bCfg True s
                         in Some (Some bucket, s')))))"

text \<open>
  The end of \<^verbatim>\<open>FindBucket\<close>: \<^verbatim>\<open>if bucket != nil { bucket.ReportActivity() }; return\<close>,
  followed by the deferred calls.
\<close>

definition FindBucket_return ::
  "bucket_ref option \<Rightarrow> event list \<Rightarrow> system \<Rightarrow> bucket_ref option \<times> system" where
  "FindBucket_return bucket deferred s =
    (bucket,
     fold emit deferred
       (case bucket of None \<Rightarrow> s | Some b \<Rightarrow> bucket_ReportActivity b s))"

text \<open>
  \<^verbatim>\<open>FindBucket\<close>, run without interleaving. The result is \<open>None\<close> for a panic, otherwise
  the returned bucket (\<open>None\<close> for nil) and the new state.
\<close>

definition FindBucket ::
  "string \<Rightarrow> string \<Rightarrow> system \<Rightarrow> (bucket_ref option \<times> system) option" where
  "FindBucket namespace bucketName s =
    (case bc_namespaces s namespace of
       None \<Rightarrow> Some (FindBucket_return (bc_defaultBucket s) [] s)
     | Some ns \<Rightarrow>
         (let s1 = emit (EvRLock ns) s;
              bucket = map_of (ns_buckets (the_namespace s1 ns)) bucketName;
              s2 = emit (EvRUnlock ns) s1
          in case bucket of
               Some b \<Rightarrow> Some (FindBucket_return (Some b) [] s2)
             | None \<Rightarrow>
                 (case DynamicBucketTemplate (ns_cfg (the_namespace s2 ns)) of
                    Some template \<Rightarrow>
                      (let s3 = emit (EvLock ns) s2 in
                       case map_of (ns_buckets (the_namespace s3 ns)) bucketName of
                         Some b \<Rightarrow> Some (FindBucket_return (Some b) [EvUnlock ns] s3)
                       | None \<Rightarrow>
                           (case createNewNamedBucket namespace bucketName ns s3 of
                              None \<Rightarrow> None
                            | Some (created, s4) \<Rightarrow>
                                Some (FindBucket_return created [EvUnlock ns] s4)))
                  | None \<Rightarrow>
                      Some (FindBucket_return
                              (ns_defaultBucket (the_namespace s2 ns)) [] s2))))"

definition Exists :: "string \<Rightarrow> string \<Rightarrow> system \<Rightarrow> bool" where
  "Exists namespace name s =
    (case bc_namespaces s namespace of
       None \<Rightarrow> False
     | Some ns \<Rightarrow> map_of (ns_buckets (the_namespace s ns)) name \<noteq> None)"

text \<open>\<^verbatim>\<open>NewBucketContainer\<close>: the container before the loops, and the two loops.\<close>

definition empty_system :: "ServiceConfig \<Rightarrow> system" where
  "empty_system cfg =
     \<lparr>bc_cfg = cfg, bc_namespaces = Map.empty, bc_defaultBucket = None,
      bucket_heap = Map.empty, bucket_next = 0,
      namespace_heap = Map.empty, namespace_next = 0,
      watchers = [], trace = []\<rparr>"

definition new_namespace :: "NamespaceConfig \<Rightarrow> system \<Rightarrow> namespace_ref \<times> system" where
  "new_namespace nsCfg s =
    (let nsp = namespace_next s
     in (nsp, s\<lparr>namespace_heap := (namespace_heap s)
                   (nsp \<mapsto> \<lparr>ns_cfg = nsCfg, ns_buckets = [], ns_defaultBucket = None\<rparr>),
               namespace_next := Suc nsp\<rparr>))"

fun init_buckets ::
  "string \<Rightarrow> namespace_ref \<Rightarrow> (string \<times> BucketConfig) list \<Rightarrow> system \<Rightarrow> system" where
  "init_buckets nsName nsp [] s = s"
| "init_buckets nsName nsp ((bucketName, bucketCfg) # rest) s =
     init_buckets nsName nsp rest
       (snd (createNewNamedBucketFromCfg nsName bucketName nsp bucketCfg False s))"

fun init_namespaces :: "(string \<times> NamespaceConfig) list \<Rightarrow> system \<Rightarrow> system" where
  "init_namespaces [] s = s"
| "init_namespaces ((nsName, nsCfg) # rest) s =
    (let (nsp, s1) = new_namespace nsCfg s;
         s2 = (case DefaultBucket nsCfg of
                 None \<Rightarrow> s1
               | Some c \<Rightarrow>
                   (let (b, s') = NewBucket nsName DEFAULT_BUCKET_NAME c False s1
                    in update_namespace nsp (\<lambda>n. n\<lparr>ns_defaultBucket := Some b\<rparr>) s'));
         s3 = init_buckets nsName nsp (Buckets nsCfg) s2;
         s4 = s3\<lparr>bc_namespaces := (bc_namespaces s3)(nsName \<mapsto> nsp)\<rparr>
     in init_namespaces rest s4)"

definition NewBucketContainer :: "ServiceConfig \<Rightarrow> system" where
  "NewBucketContainer cfg =
    (let bc = empty_system cfg;
         bc1 = (case GlobalDefaultBucket cfg of
                  None \<Rightarrow> bc
                | Some c \<Rightarrow>
                    (let (b, s') = NewBucket GLOBAL_NAMESPACE DEFAULT_BUCKET_NAME c False bc
                     in s'\<lparr>bc_defaultBucket := Some b\<rparr>))
     in init_namespaces (Namespaces cfg) bc1)"

text \<open>
  What can happen to a container after it was built: a call of \<^verbatim>\<open>FindBucket\<close>; the
  ticker of a waiting watcher fires (\<^verbatim>\<open>time.Tick\<close> returns a nil channel for a duration
  that is not positive, and receiving from it blocks for ever, so such a watcher never
  sees a tick); a caller that holds a bucket reports activity on it, as \<^verbatim>\<open>Take\<close> does.
\<close>

datatype action = Find string string | Tick nat | Touch bucket_ref

fun step :: "action \<Rightarrow> system \<Rightarrow> system option" where
  "step (Find namespace bucketName) s = map_option snd (FindBucket namespace bucketName s)"
| "step (Tick i) s =
     Some (if i < length (watchers s) \<and> 0 <s watch_freq (watchers s ! i)
           then watch_tick (watchers s ! i) s else s)"
| "step (Touch b) s =
     Some (if b < bucket_next s then bucket_ReportActivity b s else s)"

fun run :: "action list \<Rightarrow> system \<Rightarrow> system option" where
  "run [] s = Some s"
| "run (a # rest) s = (case step a s of None \<Rightarrow> None | Some s' \<Rightarrow> run rest s')"

text \<open>A run of calls of \<^verbatim>\<open>FindBucket\<close> in one namespace, with what each call returned.\<close>

fun FindBuckets ::
  "string \<Rightarrow> string list \<Rightarrow> system \<Rightarrow> (bucket_ref option list \<times> system) option" where
  "FindBuckets namespace [] s = Some ([], s)"
| "FindBuckets namespace (bucketName # rest) s =
    (case FindBucket namespace bucketName s of
       None \<Rightarrow> None
     | Some (bucket, s') \<Rightarrow>
         (case FindBuckets namespace rest s' of
            None \<Rightarrow> None
          | Some (found, s'') \<Rightarrow> Some (bucket # found, s'')))"


text \<open>
  Notions for stating what holds in every state that a container can reach. A bucket is
  a named bucket of a namespace when the namespace's map has it under a name; it is a
  default bucket when the container or a namespace holds it as its default.
\<close>

definition named_bucket :: "system \<Rightarrow> namespace_ref \<Rightarrow> string \<Rightarrow> bucket_ref \<Rightarrow> bool" where
  "named_bucket s ns name b \<longleftrightarrow>
     ns < namespace_next s \<and> map_of (ns_buckets (the_namespace s ns)) name = Some b"

definition default_bucket :: "system \<Rightarrow> bucket_ref \<Rightarrow> bool" where
  "default_bucket s b \<longleftrightarrow>
     bc_defaultBucket s = Some b
     \<or> (\<exists>ns < namespace_next s. ns_defaultBucket (the_namespace s ns) = Some b)"

text \<open>
  The Go maps of a configuration have one entry for each key; an association list stands
  for such a map when its keys are distinct.
\<close>

definition config_maps :: "ServiceConfig \<Rightarrow> bool" where
  "config_maps cfg \<longleftrightarrow>
     distinct (map fst (Namespaces cfg))
     \<and> (\<forall>entry \<in> set (Namespaces cfg). distinct (map fst (Buckets (snd entry))))"

text \<open>
  The invariant of the container: named buckets are existing objects, are not defaults and
  have not been destroyed; no bucket is in the maps twice; defaults are existing objects
  that are static and have not been destroyed; every waiting watcher watches the bucket
  that its namespace has under its name, at the period that the bucket's configuration
  gives, which is not 0; no bucket has two watchers; a bucket that is neither named nor a
  default has been destroyed exactly once; only existing buckets have been destroyed; the
  configured namespaces are existing objects.
\<close>

definition consistent :: "system \<Rightarrow> bool" where
  "consistent s \<longleftrightarrow>
     (\<forall>ns name b. named_bucket s ns name b \<longrightarrow>
        b < bucket_next s \<and> \<not> default_bucket s b \<and> EvDestroy b \<notin> set (trace s))
     \<and> (\<forall>ns name ns' name' b. named_bucket s ns name b \<and> named_bucket s ns' name' b \<longrightarrow>
          ns = ns' \<and> name = name')
     \<and> (\<forall>d. default_bucket s d \<longrightarrow>
          d < bucket_next s \<and> EvDestroy d \<notin> set (trace s)
          \<and> \<not> bucket_dyn (the_bucket s d)
          \<and> bucket_name (the_bucket s d) = DEFAULT_BUCKET_NAME)
     \<and> (\<forall>w \<in> set (watchers s).
          named_bucket s (watch_ns w) (watch_bucketName w) (watch_bucket w)
          \<and> watch_freq w \<noteq> 0
          \<and> watch_freq w =
              MaxIdleMillis (bucket_cfg (the_bucket s (watch_bucket w))) * Millisecond)
     \<and> distinct (map watch_bucket (watchers s))
     \<and> (\<forall>b < bucket_next s.
          (\<exists>ns name. named_bucket s ns name b) \<or> default_bucket s b
          \<or> count_list (trace s) (EvDestroy b) = 1)
     \<and> (\<forall>b. EvDestroy b \<in> set (trace s) \<longrightarrow> b < bucket_next s)
     \<and> (\<forall>name ns. bc_namespaces s name = Some ns \<longrightarrow> ns < namespace_next s)"


text \<open>
  The objects that exist are the ones that were allocated: a pointer that the model
  follows with \<open>the_bucket\<close> or \<open>the_namespace\<close> must be one of them.
\<close>

definition allocated :: "system \<Rightarrow> bool" where
  "allocated s \<longleftrightarrow>
     dom (bucket_heap s) = {..<bucket_next s}
     \<and> dom (namespace_heap s) = {..<namespace_next s}"

text \<open>
  What a bucket is for its whole life: everything but the activity flag. And what stays
  as it is from a state to a later one: the container's own fields, the configuration
  and the default of every namespace, and what every existing bucket is.
\<close>

definition static_part :: "Bucket \<Rightarrow> string \<times> string \<times> BucketConfig \<times> bool" where
  "static_part x = (bucket_namespace x, bucket_name x, bucket_cfg x, bucket_dyn x)"

definition unchanged :: "system \<Rightarrow> system \<Rightarrow> bool" where
  "unchanged s s' \<longleftrightarrow>
     bc_cfg s' = bc_cfg s \<and> bc_namespaces s' = bc_namespaces s
     \<and> bc_defaultBucket s' = bc_defaultBucket s
     \<and> namespace_next s' = namespace_next s \<and> bucket_next s \<le> bucket_next s'
     \<and> (\<forall>ns < namespace_next s.
          ns_cfg (the_namespace s' ns) = ns_cfg (the_namespace s ns)
          \<and> ns_defaultBucket (the_namespace s' ns) = ns_defaultBucket (the_namespace s ns))
     \<and> (\<forall>b < bucket_next s. static_part (the_bucket s' b) = static_part (the_bucket s b))"

text \<open>
  The same for a state and a later one during construction, when namespaces are still
  being added. And what it means that a default is as the configuration asks: no bucket
  when none is configured, otherwise an existing static bucket with the reserved name,
  the given namespace and the configured parameters.
\<close>

definition grown :: "system \<Rightarrow> system \<Rightarrow> bool" where
  "grown s s' \<longleftrightarrow>
     bc_cfg s' = bc_cfg s \<and> bc_defaultBucket s' = bc_defaultBucket s
     \<and> namespace_next s \<le> namespace_next s' \<and> bucket_next s \<le> bucket_next s'
     \<and> (\<forall>ns < namespace_next s.
          ns_cfg (the_namespace s' ns) = ns_cfg (the_namespace s ns)
          \<and> ns_defaultBucket (the_namespace s' ns) = ns_defaultBucket (the_namespace s ns))
     \<and> (\<forall>b < bucket_next s. static_part (the_bucket s' b) = static_part (the_bucket s b))"

definition default_as_configured ::
  "system \<Rightarrow> string \<Rightarrow> BucketConfig option \<Rightarrow> bucket_ref option \<Rightarrow> bool" where
  "default_as_configured s namespace cfg d =
    (case cfg of
       None \<Rightarrow> d = None
     | Some c \<Rightarrow>
         (\<exists>b. d = Some b \<and> b < bucket_next s
            \<and> static_part (the_bucket s b) = (namespace, DEFAULT_BUCKET_NAME, c, False)))"

text \<open>
  A configuration on which the operations are run: a global default; a namespace
  \<open>ns_a\<close> with a default, no template, a named bucket \<open>b1\<close> that is never idle-checked
  and a named bucket \<open>b2\<close> that is idle-checked every 50 milliseconds; a namespace
  \<open>ns_d\<close> with a default, a template, room for two dynamic buckets, and a named bucket
  \<open>s1\<close> that is idle-checked every 50 milliseconds.
\<close>

definition example_cfg :: ServiceConfig where
  "example_cfg =
    \<lparr>GlobalDefaultBucket = Some \<lparr>Rate = 10, Capacity = 10, MaxIdleMillis = 0\<rparr>,
     Namespaces =
       [(''ns_a'',
         \<lparr>DefaultBucket = Some \<lparr>Rate = 1, Capacity = 1, MaxIdleMillis = 0\<rparr>,
          DynamicBucketTemplate = None, MaxDynamicBuckets = 0,
          Buckets = [(''b1'', \<lparr>Rate = 100, Capacity = 100, MaxIdleMillis = 0\<rparr>),
                     (''b2'', \<lparr>Rate = 3, Capacity = 3, MaxIdleMillis = 50\<rparr>)]\<rparr>),
        (''ns_d'',
         \<lparr>DefaultBucket = Some \<lparr>Rate = 2, Capacity = 2, MaxIdleMillis = 0\<rparr>,
          DynamicBucketTemplate = Some \<lparr>Rate = 5, Capacity = 5, MaxIdleMillis = 0\<rparr>,
          MaxDynamicBuckets = 2,
          Buckets = [(''s1'', \<lparr>Rate = 7, Capacity = 7, MaxIdleMillis = 50\<rparr>)]\<rparr>)]\<rparr>"

definition example_container :: system where
  "example_container = NewBucketContainer example_cfg"


text \<open>The example container after two and after three buckets were asked for in \<open>ns_d\<close>.\<close>

definition example_container_a :: system where
  "example_container_a = snd (the (FindBucket ''ns_d'' ''a'' example_container))"

definition example_container_ab :: system where
  "example_container_ab = snd (the (FindBucket ''ns_d'' ''b'' example_container_a))"

text \<open>
  The example container after each of its two watchers has seen one tick: both have found
  the activity that the creation reported, and have cleared it. The first of the two is
  the watcher of \<open>b2\<close>.
\<close>

definition example_watcher_b2 :: watcher where
  "example_watcher_b2 =
     \<lparr>watch_ns = 0, watch_bucketName = ''b2'', watch_bucket = 3, watch_freq = 50000000\<rparr>"

definition example_container_quiet :: system where
  "example_container_quiet = the (run [Tick 0, Tick 1] example_container)"

text \<open>
  The example container after each of its two watchers has seen two ticks with no call in
  between: the first tick finds the activity that the creation reported, the second finds
  none. The watcher of \<open>b2\<close> is the first of the list until it is gone.
\<close>

definition example_container_idle :: system where
  "example_container_idle = the (run [Tick 0, Tick 1, Tick 0, Tick 0] example_container)"


text \<open>
  A configuration with one namespace that has a template, room for two dynamic buckets,
  no named buckets and no default, and no global default.
\<close>

definition dynamic_cfg :: ServiceConfig where
  "dynamic_cfg =
    \<lparr>GlobalDefaultBucket = None,
     Namespaces =
       [(''ns_d'',
         \<lparr>DefaultBucket = None,
          DynamicBucketTemplate = Some \<lparr>Rate = 5, Capacity = 5, MaxIdleMillis = 0\<rparr>,
          MaxDynamicBuckets = 2, Buckets = []\<rparr>)]\<rparr>"

definition dynamic_container :: system where
  "dynamic_container = NewBucketContainer dynamic_cfg"


section \<open>Properties of the activity channel\<close>

lemma ReportActivity_length: "length m \<le> 1 \<Longrightarrow> length (ReportActivity m) \<le> 1"
  by (simp add: ReportActivity_def ActivityChannel_cap_def)

lemma ActivityDetected_length: "length m \<le> 1 \<Longrightarrow> length (snd (ActivityDetected m)) \<le> 1"
  by (cases m) (simp_all add: ActivityDetected_def)

lemma signal_calls_length: "length m \<le> 1 \<Longrightarrow> length (signal_calls cs m) \<le> 1"
proof (induction cs arbitrary: m)
  case Nil
  then show ?case by simp
next
  case (Cons c cs)
  show ?case
  proof (cases c)
    case CallReportActivity
    have "length (ReportActivity m) \<le> 1"
      using Cons.prems by (rule ReportActivity_length)
    then have "length (signal_calls cs (ReportActivity m)) \<le> 1"
      by (rule Cons.IH)
    with CallReportActivity show ?thesis by simp
  next
    case CallActivityDetected
    have "length (snd (ActivityDetected m)) \<le> 1"
      using Cons.prems by (rule ActivityDetected_length)
    then have "length (signal_calls cs (snd (ActivityDetected m))) \<le> 1"
      by (rule Cons.IH)
    with CallActivityDetected show ?thesis by simp
  qed
qed

lemma reachable_channel_length: "length (signal_calls cs NewActivityChannel) \<le> 1"
  by (rule signal_calls_length) (simp add: NewActivityChannel_def)

lemma ReportActivity_full: "length m = 1 \<Longrightarrow> ReportActivity m = m"
  by (simp add: ReportActivity_def ActivityChannel_cap_def)

lemma ReportActivity_fills: "length m \<le> 1 \<Longrightarrow> length (ReportActivity m) = 1"
  by (cases m) (simp_all add: ReportActivity_def ActivityChannel_cap_def)

lemma ReportActivity_funpow_fills:
  "length m \<le> 1 \<Longrightarrow> 1 \<le> n \<Longrightarrow> length ((ReportActivity ^^ n) m) = 1"
proof (induction n)
  case 0
  then show ?case by simp
next
  case (Suc n)
  show ?case
  proof (cases n)
    case 0
    with Suc.prems show ?thesis by (simp add: ReportActivity_fills)
  next
    case (Suc k)
    with Suc.IH Suc.prems have "length ((ReportActivity ^^ n) m) = 1" by simp
    then show ?thesis by (simp add: ReportActivity_full)
  qed
qed

lemma ActivityDetected_one:
  "length m = 1 \<Longrightarrow> ActivityDetected m = (True, [])"
  by (cases m) (simp_all add: ActivityDetected_def)

lemma ActivityDetected_twice:
  "length m \<le> 1 \<Longrightarrow> fst (ActivityDetected (snd (ActivityDetected m))) = False"
  by (cases m) (simp_all add: ActivityDetected_def)

text \<open>
  C6. On any channel that \<open>NewActivityChannel\<close> made and that has seen any history of
  calls: after \<open>n \<ge> 1\<close> calls of ReportActivity with no ActivityDetected in between, the
  next ActivityDetected returns true and the one right after it returns false; and with
  no ReportActivity since the last ActivityDetected, or since the channel was made,
  ActivityDetected returns false.
\<close>

theorem activity_coalescing:
  fixes history :: "signal_call list"
  assumes "1 \<le> n"
  shows "fst (ActivityDetected ((ReportActivity ^^ n)
           (signal_calls history NewActivityChannel))) = True
       \<and> fst (ActivityDetected (snd (ActivityDetected ((ReportActivity ^^ n)
           (signal_calls history NewActivityChannel))))) = False
       \<and> fst (ActivityDetected (snd (ActivityDetected
           (signal_calls history NewActivityChannel)))) = False
       \<and> fst (ActivityDetected NewActivityChannel) = False"
proof -
  define m where "m = (ReportActivity ^^ n) (signal_calls history NewActivityChannel)"
  have len: "length m = 1"
    unfolding m_def using reachable_channel_length assms(1)
    by (rule ReportActivity_funpow_fills)
  have "fst (ActivityDetected m) = True"
    using len by (simp add: ActivityDetected_one)
  moreover have "fst (ActivityDetected (snd (ActivityDetected m))) = False"
    using len by (simp add: ActivityDetected_twice)
  moreover have "fst (ActivityDetected (snd (ActivityDetected
                   (signal_calls history NewActivityChannel)))) = False"
    using reachable_channel_length by (rule ActivityDetected_twice)
  moreover have "fst (ActivityDetected NewActivityChannel) = False"
    by (simp add: ActivityDetected_def NewActivityChannel_def)
  ultimately show ?thesis unfolding m_def by simp
qed

theorem activity_coalescing_witness:
  "(1::nat) \<le> 3
   \<and> fst (ActivityDetected ((ReportActivity ^^ 3)
        (signal_calls [CallReportActivity, CallActivityDetected] NewActivityChannel))) = True
   \<and> fst (ActivityDetected (snd (ActivityDetected ((ReportActivity ^^ 3)
        (signal_calls [CallReportActivity, CallActivityDetected] NewActivityChannel))))) = False
   \<and> fst (ActivityDetected (snd (ActivityDetected
        (signal_calls [CallReportActivity, CallActivityDetected] NewActivityChannel)))) = False
   \<and> fst (ActivityDetected NewActivityChannel) = False"
  using activity_coalescing [of 3 "[CallReportActivity, CallActivityDetected]"] by simp


section \<open>Effects of the primitive operations\<close>

text \<open>
  What each primitive does to each component of the state. The stores are read through
  \<open>the_bucket\<close> and \<open>the_namespace\<close>.
\<close>

lemma emit_fields [simp]:
  "bc_cfg (emit e s) = bc_cfg s"
  "bc_namespaces (emit e s) = bc_namespaces s"
  "bc_defaultBucket (emit e s) = bc_defaultBucket s"
  "bucket_heap (emit e s) = bucket_heap s"
  "bucket_next (emit e s) = bucket_next s"
  "namespace_heap (emit e s) = namespace_heap s"
  "namespace_next (emit e s) = namespace_next s"
  "watchers (emit e s) = watchers s"
  "trace (emit e s) = trace s @ [e]"
  by (simp_all add: emit_def)

lemma fold_emit_fields [simp]:
  "bc_cfg (fold emit es s) = bc_cfg s"
  "bc_namespaces (fold emit es s) = bc_namespaces s"
  "bc_defaultBucket (fold emit es s) = bc_defaultBucket s"
  "bucket_heap (fold emit es s) = bucket_heap s"
  "bucket_next (fold emit es s) = bucket_next s"
  "namespace_heap (fold emit es s) = namespace_heap s"
  "namespace_next (fold emit es s) = namespace_next s"
  "watchers (fold emit es s) = watchers s"
  "trace (fold emit es s) = trace s @ es"
  by (induction es arbitrary: s; simp)+

lemma the_bucket_cong: "bucket_heap s = bucket_heap s' \<Longrightarrow> the_bucket s = the_bucket s'"
  by (rule ext) (simp add: the_bucket_def)

lemma the_namespace_cong:
  "namespace_heap s = namespace_heap s' \<Longrightarrow> the_namespace s = the_namespace s'"
  by (rule ext) (simp add: the_namespace_def)

lemma the_emit [simp]:
  "the_bucket (emit e s) = the_bucket s"
  "the_namespace (emit e s) = the_namespace s"
  "the_bucket (fold emit es s) = the_bucket s"
  "the_namespace (fold emit es s) = the_namespace s"
  by (simp_all add: the_bucket_def the_namespace_def fun_eq_iff)

lemma update_bucket_fields [simp]:
  "bc_cfg (update_bucket b f s) = bc_cfg s"
  "bc_namespaces (update_bucket b f s) = bc_namespaces s"
  "bc_defaultBucket (update_bucket b f s) = bc_defaultBucket s"
  "bucket_heap (update_bucket b f s) = (bucket_heap s)(b \<mapsto> f (the_bucket s b))"
  "bucket_next (update_bucket b f s) = bucket_next s"
  "namespace_heap (update_bucket b f s) = namespace_heap s"
  "namespace_next (update_bucket b f s) = namespace_next s"
  "watchers (update_bucket b f s) = watchers s"
  "trace (update_bucket b f s) = trace s"
  "the_namespace (update_bucket b f s) = the_namespace s"
  "the_bucket (update_bucket b f s) = (the_bucket s)(b := f (the_bucket s b))"
  by (auto simp: update_bucket_def the_namespace_def the_bucket_def fun_eq_iff)

lemma update_namespace_fields [simp]:
  "bc_cfg (update_namespace ns f s) = bc_cfg s"
  "bc_namespaces (update_namespace ns f s) = bc_namespaces s"
  "bc_defaultBucket (update_namespace ns f s) = bc_defaultBucket s"
  "bucket_heap (update_namespace ns f s) = bucket_heap s"
  "bucket_next (update_namespace ns f s) = bucket_next s"
  "namespace_heap (update_namespace ns f s) = (namespace_heap s)(ns \<mapsto> f (the_namespace s ns))"
  "namespace_next (update_namespace ns f s) = namespace_next s"
  "watchers (update_namespace ns f s) = watchers s"
  "trace (update_namespace ns f s) = trace s"
  "the_bucket (update_namespace ns f s) = the_bucket s"
  "the_namespace (update_namespace ns f s) = (the_namespace s)(ns := f (the_namespace s ns))"
  by (auto simp: update_namespace_def the_namespace_def the_bucket_def fun_eq_iff)

lemma bucket_ReportActivity_fields [simp]:
  "bc_cfg (bucket_ReportActivity b s) = bc_cfg s"
  "bc_namespaces (bucket_ReportActivity b s) = bc_namespaces s"
  "bc_defaultBucket (bucket_ReportActivity b s) = bc_defaultBucket s"
  "bucket_next (bucket_ReportActivity b s) = bucket_next s"
  "namespace_heap (bucket_ReportActivity b s) = namespace_heap s"
  "namespace_next (bucket_ReportActivity b s) = namespace_next s"
  "watchers (bucket_ReportActivity b s) = watchers s"
  "trace (bucket_ReportActivity b s) = trace s @ [EvReportActivity b]"
  "the_namespace (bucket_ReportActivity b s) = the_namespace s"
  "the_bucket (bucket_ReportActivity b s) =
     (the_bucket s)(b := (the_bucket s b)\<lparr>bucket_activity :=
        ReportActivity (bucket_activity (the_bucket s b))\<rparr>)"
  by (simp_all add: bucket_ReportActivity_def)

lemma bucket_ActivityDetected_fields [simp]:
  "fst (bucket_ActivityDetected b s) = (bucket_activity (the_bucket s b) \<noteq> [])"
  "bc_cfg (snd (bucket_ActivityDetected b s)) = bc_cfg s"
  "bc_namespaces (snd (bucket_ActivityDetected b s)) = bc_namespaces s"
  "bc_defaultBucket (snd (bucket_ActivityDetected b s)) = bc_defaultBucket s"
  "bucket_next (snd (bucket_ActivityDetected b s)) = bucket_next s"
  "namespace_heap (snd (bucket_ActivityDetected b s)) = namespace_heap s"
  "namespace_next (snd (bucket_ActivityDetected b s)) = namespace_next s"
  "watchers (snd (bucket_ActivityDetected b s)) = watchers s"
  "trace (snd (bucket_ActivityDetected b s)) = trace s"
  "the_namespace (snd (bucket_ActivityDetected b s)) = the_namespace s"
  "the_bucket (snd (bucket_ActivityDetected b s)) =
     (the_bucket s)(b := (the_bucket s b)\<lparr>bucket_activity :=
        snd (ActivityDetected (bucket_activity (the_bucket s b)))\<rparr>)"
  by (simp_all add: bucket_ActivityDetected_def ActivityDetected_def split: list.splits)

lemma bucket_Destroy_fields [simp]:
  "bc_cfg (bucket_Destroy b s) = bc_cfg s"
  "bc_namespaces (bucket_Destroy b s) = bc_namespaces s"
  "bc_defaultBucket (bucket_Destroy b s) = bc_defaultBucket s"
  "bucket_heap (bucket_Destroy b s) = bucket_heap s"
  "bucket_next (bucket_Destroy b s) = bucket_next s"
  "namespace_heap (bucket_Destroy b s) = namespace_heap s"
  "namespace_next (bucket_Destroy b s) = namespace_next s"
  "watchers (bucket_Destroy b s) = watchers s"
  "trace (bucket_Destroy b s) = trace s @ [EvDestroy b]"
  "the_namespace (bucket_Destroy b s) = the_namespace s"
  "the_bucket (bucket_Destroy b s) = the_bucket s"
  by (simp_all add: bucket_Destroy_def)

lemma NewBucket_fields [simp]:
  "fst (NewBucket namespace bucketName cfg dyn s) = bucket_next s"
  "bc_cfg (snd (NewBucket namespace bucketName cfg dyn s)) = bc_cfg s"
  "bc_namespaces (snd (NewBucket namespace bucketName cfg dyn s)) = bc_namespaces s"
  "bc_defaultBucket (snd (NewBucket namespace bucketName cfg dyn s)) = bc_defaultBucket s"
  "bucket_next (snd (NewBucket namespace bucketName cfg dyn s)) = Suc (bucket_next s)"
  "namespace_heap (snd (NewBucket namespace bucketName cfg dyn s)) = namespace_heap s"
  "namespace_next (snd (NewBucket namespace bucketName cfg dyn s)) = namespace_next s"
  "watchers (snd (NewBucket namespace bucketName cfg dyn s)) = watchers s"
  "trace (snd (NewBucket namespace bucketName cfg dyn s)) = trace s @ [EvNewBucket (bucket_next s)]"
  "the_namespace (snd (NewBucket namespace bucketName cfg dyn s)) = the_namespace s"
  "the_bucket (snd (NewBucket namespace bucketName cfg dyn s)) =
     (the_bucket s)(bucket_next s :=
        \<lparr>bucket_namespace = namespace, bucket_name = bucketName, bucket_cfg = cfg,
         bucket_dyn = dyn, bucket_activity = []\<rparr>)"
  by (auto simp: NewBucket_def Let_def the_namespace_def the_bucket_def fun_eq_iff
      NewActivityChannel_def)

lemma go_watch_fields [simp]:
  "bc_cfg (go_watch ns bucketName b freq s) = bc_cfg s"
  "bc_namespaces (go_watch ns bucketName b freq s) = bc_namespaces s"
  "bc_defaultBucket (go_watch ns bucketName b freq s) = bc_defaultBucket s"
  "bucket_heap (go_watch ns bucketName b freq s) = bucket_heap s"
  "bucket_next (go_watch ns bucketName b freq s) = bucket_next s"
  "namespace_heap (go_watch ns bucketName b freq s) = namespace_heap s"
  "namespace_next (go_watch ns bucketName b freq s) = namespace_next s"
  "watchers (go_watch ns bucketName b freq s) = watchers s @
     (if freq = 0 then []
      else [\<lparr>watch_ns = ns, watch_bucketName = bucketName, watch_bucket = b,
              watch_freq = freq\<rparr>])"
  "trace (go_watch ns bucketName b freq s) = trace s"
  "the_namespace (go_watch ns bucketName b freq s) = the_namespace s"
  "the_bucket (go_watch ns bucketName b freq s) = the_bucket s"
  by (auto simp: go_watch_def the_namespace_def the_bucket_def fun_eq_iff)

lemma create_fields [simp]:
  "fst (createNewNamedBucketFromCfg namespace bucketName ns bCfg dyn s) = bucket_next s"
  "bc_cfg (snd (createNewNamedBucketFromCfg namespace bucketName ns bCfg dyn s)) = bc_cfg s"
  "bc_namespaces (snd (createNewNamedBucketFromCfg namespace bucketName ns bCfg dyn s)) =
     bc_namespaces s"
  "bc_defaultBucket (snd (createNewNamedBucketFromCfg namespace bucketName ns bCfg dyn s)) =
     bc_defaultBucket s"
  "bucket_next (snd (createNewNamedBucketFromCfg namespace bucketName ns bCfg dyn s)) =
     Suc (bucket_next s)"
  "namespace_next (snd (createNewNamedBucketFromCfg namespace bucketName ns bCfg dyn s)) =
     namespace_next s"
  "watchers (snd (createNewNamedBucketFromCfg namespace bucketName ns bCfg dyn s)) =
     watchers s @
     (if MaxIdleMillis bCfg * Millisecond = 0 then []
      else [\<lparr>watch_ns = ns, watch_bucketName = bucketName, watch_bucket = bucket_next s,
              watch_freq = MaxIdleMillis bCfg * Millisecond\<rparr>])"
  "trace (snd (createNewNamedBucketFromCfg namespace bucketName ns bCfg dyn s)) =
     trace s @ [EvNewBucket (bucket_next s), EvReportActivity (bucket_next s)]"
  "the_namespace (snd (createNewNamedBucketFromCfg namespace bucketName ns bCfg dyn s)) =
     (the_namespace s)(ns := (the_namespace s ns)\<lparr>ns_buckets :=
        AList.update bucketName (bucket_next s) (ns_buckets (the_namespace s ns))\<rparr>)"
  "the_bucket (snd (createNewNamedBucketFromCfg namespace bucketName ns bCfg dyn s)) =
     (the_bucket s)(bucket_next s :=
        \<lparr>bucket_namespace = namespace, bucket_name = bucketName, bucket_cfg = bCfg,
         bucket_dyn = dyn, bucket_activity = [True]\<rparr>)"
  by (auto simp: createNewNamedBucketFromCfg_def Let_def split_beta fun_eq_iff
      ReportActivity_def ActivityChannel_cap_def)


section \<open>The lookup cascade of FindBucket\<close>

lemma countDynamicBuckets_Some:
  "bc_namespaces s namespace = Some ns \<Longrightarrow>
   countDynamicBuckets namespace s =
     Some (int (length (filter (\<lambda>entry. bucket_Dynamic s (snd entry))
                  (ns_buckets (the_namespace s ns)))))"
  by (simp add: countDynamicBuckets_def)

lemma bucket_Dynamic_emit [simp]: "bucket_Dynamic (emit e s) b = bucket_Dynamic s b"
  by (simp add: bucket_Dynamic_def)

lemma countDynamicBuckets_emit [simp]:
  "countDynamicBuckets namespace (emit e s) = countDynamicBuckets namespace s"
  by (simp add: countDynamicBuckets_def split: option.splits)

lemma createNewNamedBucket_emit:
  "map_option fst (createNewNamedBucket namespace name ns (emit e s)) =
   map_option fst (createNewNamedBucket namespace name ns s)"
  by (simp add: createNewNamedBucket_def Let_def split_beta split: option.splits)

lemma createNewNamedBucket_returns:
  assumes "bc_namespaces s namespace = Some ns"
    and "DynamicBucketTemplate (ns_cfg (the_namespace s ns)) = Some t"
  shows "createNewNamedBucket namespace name ns s \<noteq> None"
  using assms
  by (simp add: createNewNamedBucket_def countDynamicBuckets_def Let_def split_beta
      split: option.splits)

lemma FindBucket_returns: "FindBucket namespace name s \<noteq> None"
proof (cases "bc_namespaces s namespace")
  case None
  then show ?thesis by (simp add: FindBucket_def)
next
  case (Some ns)
  show ?thesis
  proof (cases "DynamicBucketTemplate (ns_cfg (the_namespace s ns))")
    case None
    with Some show ?thesis
      by (simp add: FindBucket_def Let_def split: option.splits)
  next
    case (Some t)
    have "createNewNamedBucket namespace name ns
            (emit (EvLock ns) (emit (EvRUnlock ns) (emit (EvRLock ns) s))) \<noteq> None"
      by (rule createNewNamedBucket_returns [where t = t])
         (simp_all add: \<open>bc_namespaces s namespace = Some ns\<close> Some)
    with \<open>bc_namespaces s namespace = Some ns\<close> Some show ?thesis
      by (auto simp: FindBucket_def Let_def split: option.splits)
  qed
qed


lemma FindBucket_return_fst [simp]: "fst (FindBucket_return bucket deferred s) = bucket"
  by (simp add: FindBucket_return_def)

lemma FindBucket_unconfigured:
  "bc_namespaces s namespace = None \<Longrightarrow>
   FindBucket namespace name s = Some (FindBucket_return (bc_defaultBucket s) [] s)"
  by (simp add: FindBucket_def)

lemma FindBucket_present:
  "bc_namespaces s namespace = Some ns \<Longrightarrow>
   map_of (ns_buckets (the_namespace s ns)) name = Some b \<Longrightarrow>
   FindBucket namespace name s =
     Some (FindBucket_return (Some b) [] (emit (EvRUnlock ns) (emit (EvRLock ns) s)))"
  by (simp add: FindBucket_def Let_def)

lemma FindBucket_default:
  "bc_namespaces s namespace = Some ns \<Longrightarrow>
   map_of (ns_buckets (the_namespace s ns)) name = None \<Longrightarrow>
   DynamicBucketTemplate (ns_cfg (the_namespace s ns)) = None \<Longrightarrow>
   FindBucket namespace name s =
     Some (FindBucket_return (ns_defaultBucket (the_namespace s ns)) []
             (emit (EvRUnlock ns) (emit (EvRLock ns) s)))"
  by (simp add: FindBucket_def Let_def)

lemma FindBucket_create:
  "bc_namespaces s namespace = Some ns \<Longrightarrow>
   map_of (ns_buckets (the_namespace s ns)) name = None \<Longrightarrow>
   DynamicBucketTemplate (ns_cfg (the_namespace s ns)) = Some t \<Longrightarrow>
   FindBucket namespace name s =
     (case createNewNamedBucket namespace name ns
             (emit (EvLock ns) (emit (EvRUnlock ns) (emit (EvRLock ns) s))) of
        None \<Rightarrow> None
      | Some (created, s4) \<Rightarrow> Some (FindBucket_return created [EvUnlock ns] s4))"
  by (simp add: FindBucket_def Let_def)

lemma createNewNamedBucket_static:
  "map_of (Buckets (ns_cfg (the_namespace s ns))) name = Some c \<Longrightarrow>
   createNewNamedBucket namespace name ns s =
     Some (Some (bucket_next s), snd (createNewNamedBucketFromCfg namespace name ns c False s))"
  by (simp add: createNewNamedBucket_def Let_def split_beta)

lemma createNewNamedBucket_cap:
  "map_of (Buckets (ns_cfg (the_namespace s ns))) name = None \<Longrightarrow>
   countDynamicBuckets namespace s = Some n \<Longrightarrow>
   0 < MaxDynamicBuckets (ns_cfg (the_namespace s ns)) \<Longrightarrow>
   MaxDynamicBuckets (ns_cfg (the_namespace s ns)) \<le> n \<Longrightarrow>
   createNewNamedBucket namespace name ns s = Some (None, s)"
  by (simp add: createNewNamedBucket_def Let_def)

lemma createNewNamedBucket_dynamic:
  "map_of (Buckets (ns_cfg (the_namespace s ns))) name = None \<Longrightarrow>
   countDynamicBuckets namespace s = Some n \<Longrightarrow>
   MaxDynamicBuckets (ns_cfg (the_namespace s ns)) \<le> 0
     \<or> n < MaxDynamicBuckets (ns_cfg (the_namespace s ns)) \<Longrightarrow>
   DynamicBucketTemplate (ns_cfg (the_namespace s ns)) = Some t \<Longrightarrow>
   createNewNamedBucket namespace name ns s =
     Some (Some (bucket_next s), snd (createNewNamedBucketFromCfg namespace name ns t True s))"
  by (auto simp: createNewNamedBucket_def Let_def split_beta)

lemma ReportActivity_nonempty [simp]: "ReportActivity m \<noteq> []"
  by (cases m) (simp_all add: ReportActivity_def ActivityChannel_cap_def)

lemma ReportActivity_idem [simp]: "ReportActivity (ReportActivity m) = ReportActivity m"
  by (cases m) (simp_all add: ReportActivity_def ActivityChannel_cap_def)

text \<open>What a call of \<open>FindBucket\<close> can be: a lookup that at most reports activity, or a creation.\<close>

lemma FindBucket_cases:
  obtains
    (unconfigured) "bc_namespaces s namespace = None"
      "FindBucket namespace name s = Some (FindBucket_return (bc_defaultBucket s) [] s)"
  | (present) ns b where "bc_namespaces s namespace = Some ns"
      "map_of (ns_buckets (the_namespace s ns)) name = Some b"
      "FindBucket namespace name s =
         Some (FindBucket_return (Some b) [] (emit (EvRUnlock ns) (emit (EvRLock ns) s)))"
  | (default) ns where "bc_namespaces s namespace = Some ns"
      "map_of (ns_buckets (the_namespace s ns)) name = None"
      "DynamicBucketTemplate (ns_cfg (the_namespace s ns)) = None"
      "FindBucket namespace name s =
         Some (FindBucket_return (ns_defaultBucket (the_namespace s ns)) []
                 (emit (EvRUnlock ns) (emit (EvRLock ns) s)))"
  | (cap) ns t where "bc_namespaces s namespace = Some ns"
      "map_of (ns_buckets (the_namespace s ns)) name = None"
      "DynamicBucketTemplate (ns_cfg (the_namespace s ns)) = Some t"
      "map_of (Buckets (ns_cfg (the_namespace s ns))) name = None"
      "0 < MaxDynamicBuckets (ns_cfg (the_namespace s ns))"
      "MaxDynamicBuckets (ns_cfg (the_namespace s ns))
         \<le> int (length (filter (\<lambda>entry. bucket_Dynamic s (snd entry))
                         (ns_buckets (the_namespace s ns))))"
      "FindBucket namespace name s =
         Some (None, fold emit [EvRLock ns, EvRUnlock ns, EvLock ns, EvUnlock ns] s)"
  | (created) ns t c dyn where "bc_namespaces s namespace = Some ns"
      "map_of (ns_buckets (the_namespace s ns)) name = None"
      "DynamicBucketTemplate (ns_cfg (the_namespace s ns)) = Some t"
      "case map_of (Buckets (ns_cfg (the_namespace s ns))) name of
         Some static \<Rightarrow> c = static \<and> \<not> dyn
       | None \<Rightarrow> c = t \<and> dyn
           \<and> (MaxDynamicBuckets (ns_cfg (the_namespace s ns)) \<le> 0
              \<or> int (length (filter (\<lambda>entry. bucket_Dynamic s (snd entry))
                         (ns_buckets (the_namespace s ns))))
                 < MaxDynamicBuckets (ns_cfg (the_namespace s ns)))"
      "FindBucket namespace name s =
         Some (Some (bucket_next s),
           emit (EvUnlock ns)
             (bucket_ReportActivity (bucket_next s)
                (snd (createNewNamedBucketFromCfg namespace name ns c dyn
                   (fold emit [EvRLock ns, EvRUnlock ns, EvLock ns] s)))))"
proof (cases "bc_namespaces s namespace")
  case None
  then show ?thesis using unconfigured by (simp add: FindBucket_unconfigured)
next
  case (Some ns)
  let ?N = "the_namespace s ns"
  let ?s3 = "emit (EvLock ns) (emit (EvRUnlock ns) (emit (EvRLock ns) s))"
  note ns = Some
  show ?thesis
  proof (cases "map_of (ns_buckets ?N) name")
    case (Some b)
    with ns show ?thesis using present by (simp add: FindBucket_present)
  next
    case absent: None
    show ?thesis
    proof (cases "DynamicBucketTemplate (ns_cfg ?N)")
      case None
      with ns absent show ?thesis using default by (simp add: FindBucket_default)
    next
      case (Some t)
      have find: "FindBucket namespace name s =
          (case createNewNamedBucket namespace name ns ?s3 of
             None \<Rightarrow> None
           | Some (created, s4) \<Rightarrow> Some (FindBucket_return created [EvUnlock ns] s4))"
        using ns absent Some by (rule FindBucket_create)
      have count: "countDynamicBuckets namespace ?s3 =
          Some (int (length (filter (\<lambda>entry. bucket_Dynamic s (snd entry)) (ns_buckets ?N))))"
        using ns by (simp add: countDynamicBuckets_Some)
      show ?thesis
      proof (cases "map_of (Buckets (ns_cfg ?N)) name")
        case static: (Some c)
        have "createNewNamedBucket namespace name ns ?s3 =
            Some (Some (bucket_next s),
                  snd (createNewNamedBucketFromCfg namespace name ns c False ?s3))"
          using static by (simp add: createNewNamedBucket_static)
        then have "FindBucket namespace name s =
            Some (Some (bucket_next s),
              emit (EvUnlock ns)
                (bucket_ReportActivity (bucket_next s)
                  (snd (createNewNamedBucketFromCfg namespace name ns c False
                     (fold emit [EvRLock ns, EvRUnlock ns, EvLock ns] s)))))"
          by (simp add: find FindBucket_return_def)
        with ns absent Some static show ?thesis
          using created [of ns t c False] by simp
      next
        case None
        show ?thesis
        proof (cases "0 < MaxDynamicBuckets (ns_cfg ?N) \<and> MaxDynamicBuckets (ns_cfg ?N)
            \<le> int (length (filter (\<lambda>entry. bucket_Dynamic s (snd entry)) (ns_buckets ?N)))")
          case True
          then have "createNewNamedBucket namespace name ns ?s3 = Some (None, ?s3)"
            using None count by (simp add: createNewNamedBucket_cap)
          then have "FindBucket namespace name s =
              Some (None, fold emit [EvRLock ns, EvRUnlock ns, EvLock ns, EvUnlock ns] s)"
            by (simp add: find FindBucket_return_def)
          with ns absent Some None True show ?thesis
            using cap [of ns t] by simp
        next
          case False
          then have below: "MaxDynamicBuckets (ns_cfg ?N) \<le> 0
              \<or> int (length (filter (\<lambda>entry. bucket_Dynamic s (snd entry)) (ns_buckets ?N)))
                 < MaxDynamicBuckets (ns_cfg ?N)"
            by auto
          have "createNewNamedBucket namespace name ns ?s3 =
              Some (Some (bucket_next s),
                    snd (createNewNamedBucketFromCfg namespace name ns t True ?s3))"
            using createNewNamedBucket_dynamic [of ?s3 ns name namespace _ t] None count below Some
            by simp
          then have "FindBucket namespace name s =
              Some (Some (bucket_next s),
                emit (EvUnlock ns)
                  (bucket_ReportActivity (bucket_next s)
                    (snd (createNewNamedBucketFromCfg namespace name ns t True
                       (fold emit [EvRLock ns, EvRUnlock ns, EvLock ns] s)))))"
            by (simp add: find FindBucket_return_def)
          with ns absent Some None below show ?thesis
            using created [of ns t t True] by simp
        qed
      qed
    qed
  qed
qed

lemma FindBucket_static:
  assumes "bc_namespaces s namespace = Some ns"
    and "map_of (ns_buckets (the_namespace s ns)) name = None"
    and "DynamicBucketTemplate (ns_cfg (the_namespace s ns)) = Some t"
    and "map_of (Buckets (ns_cfg (the_namespace s ns))) name = Some c"
  shows "FindBucket namespace name s =
     Some (Some (bucket_next s),
       emit (EvUnlock ns)
         (bucket_ReportActivity (bucket_next s)
            (snd (createNewNamedBucketFromCfg namespace name ns c False
               (fold emit [EvRLock ns, EvRUnlock ns, EvLock ns] s)))))"
  using assms by (cases rule: FindBucket_cases [of s namespace name]) auto

lemma FindBucket_dynamic:
  assumes "bc_namespaces s namespace = Some ns"
    and "map_of (ns_buckets (the_namespace s ns)) name = None"
    and "DynamicBucketTemplate (ns_cfg (the_namespace s ns)) = Some t"
    and "map_of (Buckets (ns_cfg (the_namespace s ns))) name = None"
    and "MaxDynamicBuckets (ns_cfg (the_namespace s ns)) \<le> 0
         \<or> int (length (filter (\<lambda>entry. bucket_Dynamic s (snd entry))
                    (ns_buckets (the_namespace s ns))))
            < MaxDynamicBuckets (ns_cfg (the_namespace s ns))"
  shows "FindBucket namespace name s =
     Some (Some (bucket_next s),
       emit (EvUnlock ns)
         (bucket_ReportActivity (bucket_next s)
            (snd (createNewNamedBucketFromCfg namespace name ns t True
               (fold emit [EvRLock ns, EvRUnlock ns, EvLock ns] s)))))"
  using assms by (cases rule: FindBucket_cases [of s namespace name]) auto

lemma FindBucket_cap:
  assumes "bc_namespaces s namespace = Some ns"
    and "map_of (ns_buckets (the_namespace s ns)) name = None"
    and "DynamicBucketTemplate (ns_cfg (the_namespace s ns)) = Some t"
    and "map_of (Buckets (ns_cfg (the_namespace s ns))) name = None"
    and "0 < MaxDynamicBuckets (ns_cfg (the_namespace s ns))"
    and "MaxDynamicBuckets (ns_cfg (the_namespace s ns))
         \<le> int (length (filter (\<lambda>entry. bucket_Dynamic s (snd entry))
                    (ns_buckets (the_namespace s ns))))"
  shows "FindBucket namespace name s =
     Some (None, fold emit [EvRLock ns, EvRUnlock ns, EvLock ns, EvUnlock ns] s)"
  using assms by (cases rule: FindBucket_cases [of s namespace name]) auto

text \<open>The state after a creation: the new bucket, its place in the map, the next address.\<close>

lemma FindBucket_created_state:
  assumes "s' = emit (EvUnlock ns)
         (bucket_ReportActivity (bucket_next s)
            (snd (createNewNamedBucketFromCfg namespace name ns c dyn
               (fold emit [EvRLock ns, EvRUnlock ns, EvLock ns] s))))"
  shows "the_bucket s' (bucket_next s) =
           \<lparr>bucket_namespace = namespace, bucket_name = name, bucket_cfg = c,
            bucket_dyn = dyn, bucket_activity = [True]\<rparr>"
    and "map_of (ns_buckets (the_namespace s' ns)) name = Some (bucket_next s)"
    and "bucket_next s' = Suc (bucket_next s)"
  unfolding assms
  by (simp_all add: update_conv' ReportActivity_def ActivityChannel_cap_def)

text \<open>
  C1. The cascade of \<open>FindBucket\<close>. For a namespace that is not configured the result is
  the global default (nil when there is none). For a name that the namespace's map has, it
  is that bucket. Otherwise, when the namespace has a template, the call returns what the
  creation attempt \<open>createNewNamedBucket\<close> returns, and that is: for a name with a
  configuration of its own, the bucket just created at the next free address, carrying that
  configuration, not dynamic, and stored in the map under the name; for a name without one,
  nil when the cap is positive and the count of dynamic buckets has reached it (nothing is
  created and the map is as before), and else the bucket just created at the next free
  address, carrying the template, dynamic, and stored in the map under the name. Without a
  template the result is the namespace's default (nil when there is none). The call always
  returns.
\<close>

theorem FindBucket_cascade:
  "(bc_namespaces s namespace = None \<longrightarrow>
      map_option fst (FindBucket namespace name s) = Some (bc_defaultBucket s))
   \<and> (\<forall>ns. bc_namespaces s namespace = Some ns \<longrightarrow>
        (case map_of (ns_buckets (the_namespace s ns)) name of
           Some b \<Rightarrow> map_option fst (FindBucket namespace name s) = Some (Some b)
         | None \<Rightarrow>
             (case DynamicBucketTemplate (ns_cfg (the_namespace s ns)) of
                Some template \<Rightarrow>
                  FindBucket namespace name s \<noteq> None
                  \<and> map_option fst (FindBucket namespace name s) =
                      map_option fst (createNewNamedBucket namespace name ns s)
                  \<and> (map_of (Buckets (ns_cfg (the_namespace s ns))) name = None
                       \<and> 0 < MaxDynamicBuckets (ns_cfg (the_namespace s ns))
                       \<and> (\<exists>n. countDynamicBuckets namespace s = Some n
                              \<and> MaxDynamicBuckets (ns_cfg (the_namespace s ns)) \<le> n)
                     \<longrightarrow> map_option fst (FindBucket namespace name s) = Some None)
                  \<and> (case map_of (Buckets (ns_cfg (the_namespace s ns))) name of
                       Some static \<Rightarrow>
                         (\<exists>s'. FindBucket namespace name s = Some (Some (bucket_next s), s')
                            \<and> bucket_next s' = Suc (bucket_next s)
                            \<and> map_of (ns_buckets (the_namespace s' ns)) name =
                                Some (bucket_next s)
                            \<and> the_bucket s' (bucket_next s) =
                                \<lparr>bucket_namespace = namespace, bucket_name = name,
                                 bucket_cfg = static, bucket_dyn = False,
                                 bucket_activity = [True]\<rparr>)
                     | None \<Rightarrow>
                         (\<exists>n. countDynamicBuckets namespace s = Some n
                            \<and> (if 0 < MaxDynamicBuckets (ns_cfg (the_namespace s ns))
                                  \<and> MaxDynamicBuckets (ns_cfg (the_namespace s ns)) \<le> n
                               then \<exists>s'. FindBucket namespace name s = Some (None, s')
                                      \<and> bucket_next s' = bucket_next s
                                      \<and> the_namespace s' = the_namespace s
                               else \<exists>s'. FindBucket namespace name s =
                                           Some (Some (bucket_next s), s')
                                      \<and> bucket_next s' = Suc (bucket_next s)
                                      \<and> map_of (ns_buckets (the_namespace s' ns)) name =
                                          Some (bucket_next s)
                                      \<and> the_bucket s' (bucket_next s) =
                                          \<lparr>bucket_namespace = namespace, bucket_name = name,
                                           bucket_cfg = template, bucket_dyn = True,
                                           bucket_activity = [True]\<rparr>)))
              | None \<Rightarrow>
                  map_option fst (FindBucket namespace name s) =
                    Some (ns_defaultBucket (the_namespace s ns)))))"
proof (intro conjI impI allI)
  assume "bc_namespaces s namespace = None"
  then show "map_option fst (FindBucket namespace name s) = Some (bc_defaultBucket s)"
    by (simp add: FindBucket_unconfigured)
next
  fix ns
  assume ns: "bc_namespaces s namespace = Some ns"
  let ?N = "the_namespace s ns"
  let ?max = "MaxDynamicBuckets (ns_cfg ?N)"
  let ?s3 = "emit (EvLock ns) (emit (EvRUnlock ns) (emit (EvRLock ns) s))"
  let ?n = "int (length (filter (\<lambda>entry. bucket_Dynamic s (snd entry)) (ns_buckets ?N)))"
  let ?created = "\<lambda>c dyn. \<exists>s'. FindBucket namespace name s = Some (Some (bucket_next s), s')
      \<and> bucket_next s' = Suc (bucket_next s)
      \<and> map_of (ns_buckets (the_namespace s' ns)) name = Some (bucket_next s)
      \<and> the_bucket s' (bucket_next s) =
          \<lparr>bucket_namespace = namespace, bucket_name = name, bucket_cfg = c,
           bucket_dyn = dyn, bucket_activity = [True]\<rparr>"
  have count: "countDynamicBuckets namespace s = Some ?n"
    using ns by (rule countDynamicBuckets_Some)
  show "case map_of (ns_buckets ?N) name of
           Some b \<Rightarrow> map_option fst (FindBucket namespace name s) = Some (Some b)
         | None \<Rightarrow>
             (case DynamicBucketTemplate (ns_cfg ?N) of
                Some template \<Rightarrow>
                  FindBucket namespace name s \<noteq> None
                  \<and> map_option fst (FindBucket namespace name s) =
                      map_option fst (createNewNamedBucket namespace name ns s)
                  \<and> (map_of (Buckets (ns_cfg ?N)) name = None
                       \<and> 0 < ?max
                       \<and> (\<exists>n. countDynamicBuckets namespace s = Some n \<and> ?max \<le> n)
                     \<longrightarrow> map_option fst (FindBucket namespace name s) = Some None)
                  \<and> (case map_of (Buckets (ns_cfg ?N)) name of
                       Some static \<Rightarrow> ?created static False
                     | None \<Rightarrow>
                         (\<exists>n. countDynamicBuckets namespace s = Some n
                            \<and> (if 0 < ?max \<and> ?max \<le> n
                               then \<exists>s'. FindBucket namespace name s = Some (None, s')
                                      \<and> bucket_next s' = bucket_next s
                                      \<and> the_namespace s' = the_namespace s
                               else ?created template True)))
              | None \<Rightarrow>
                  map_option fst (FindBucket namespace name s) =
                    Some (ns_defaultBucket ?N))"
  proof (cases "map_of (ns_buckets ?N) name")
    case (Some b)
    with ns show ?thesis by (simp add: FindBucket_present)
  next
    case absent: None
    show ?thesis
    proof (cases "DynamicBucketTemplate (ns_cfg ?N)")
      case None
      with ns absent show ?thesis by (simp add: FindBucket_default)
    next
      case (Some t)
      have find: "FindBucket namespace name s =
          (case createNewNamedBucket namespace name ns ?s3 of
             None \<Rightarrow> None
           | Some (created, s4) \<Rightarrow> Some (FindBucket_return created [EvUnlock ns] s4))"
        using ns absent Some by (rule FindBucket_create)
      have returns: "FindBucket namespace name s \<noteq> None"
        using FindBucket_returns [of namespace name s] by auto
      have same: "map_option fst (FindBucket namespace name s) =
          map_option fst (createNewNamedBucket namespace name ns s)"
      proof -
        have "map_option fst (FindBucket namespace name s) =
            map_option fst (createNewNamedBucket namespace name ns ?s3)"
          by (auto simp: find FindBucket_return_def split: option.splits)
        then show ?thesis by (simp add: createNewNamedBucket_emit)
      qed
      have cap: "map_of (Buckets (ns_cfg ?N)) name = None
          \<and> 0 < ?max \<and> (\<exists>n. countDynamicBuckets namespace s = Some n \<and> ?max \<le> n)
          \<longrightarrow> map_option fst (FindBucket namespace name s) = Some None"
        by (auto simp: same createNewNamedBucket_cap)
      have created: "?created c dyn"
        if "FindBucket namespace name s =
          Some (Some (bucket_next s),
            emit (EvUnlock ns)
              (bucket_ReportActivity (bucket_next s)
                 (snd (createNewNamedBucketFromCfg namespace name ns c dyn
                    (fold emit [EvRLock ns, EvRUnlock ns, EvLock ns] s)))))" for c dyn
        using that FindBucket_created_state [OF refl, where s = s and ns = ns
            and namespace = namespace and name = name and c = c and dyn = dyn]
        by simp
      have outcome: "case map_of (Buckets (ns_cfg ?N)) name of
            Some static \<Rightarrow> ?created static False
          | None \<Rightarrow>
              (\<exists>n. countDynamicBuckets namespace s = Some n
                 \<and> (if 0 < ?max \<and> ?max \<le> n
                    then \<exists>s'. FindBucket namespace name s = Some (None, s')
                           \<and> bucket_next s' = bucket_next s
                           \<and> the_namespace s' = the_namespace s
                    else ?created t True))"
      proof (cases "map_of (Buckets (ns_cfg ?N)) name")
        case static: (Some c)
        have "?created c False"
          using ns absent Some static by (intro created FindBucket_static)
        with static show ?thesis by simp
      next
        case None
        show ?thesis
        proof (cases "0 < ?max \<and> ?max \<le> ?n")
          case True
          then have "FindBucket namespace name s =
              Some (None, fold emit [EvRLock ns, EvRUnlock ns, EvLock ns, EvUnlock ns] s)"
            using ns absent Some None by (intro FindBucket_cap) simp_all
          then have "\<exists>s'. FindBucket namespace name s = Some (None, s')
              \<and> bucket_next s' = bucket_next s \<and> the_namespace s' = the_namespace s"
            by simp
          with None True count show ?thesis by auto
        next
          case False
          then have "?max \<le> 0 \<or> ?n < ?max" by auto
          then have "?created t True"
            using ns absent Some None by (intro created FindBucket_dynamic)
          with None False count show ?thesis by auto
        qed
      qed
      from absent Some returns same cap outcome show ?thesis by simp
    qed
  qed
qed


section \<open>The example container\<close>

text \<open>The example container, component by component.\<close>

lemmas eval_defs = NewBucketContainer_def example_cfg_def empty_system_def new_namespace_def
  Let_def split_beta createNewNamedBucketFromCfg_def NewBucket_def emit_def update_bucket_def
  update_namespace_def the_bucket_def the_namespace_def bucket_ReportActivity_def
  go_watch_def ReportActivity_def NewActivityChannel_def ActivityChannel_cap_def
  GLOBAL_NAMESPACE_def DEFAULT_BUCKET_NAME_def Millisecond_def

lemma example_container_fields:
  "bc_namespaces example_container = [''ns_a'' \<mapsto> 0, ''ns_d'' \<mapsto> Suc 0]"
  "bc_defaultBucket example_container = Some 0"
  "bucket_next example_container = 6"
  "namespace_next example_container = 2"
  "watchers example_container =
     [\<lparr>watch_ns = 0, watch_bucketName = ''b2'', watch_bucket = 3, watch_freq = 50000000\<rparr>,
      \<lparr>watch_ns = Suc 0, watch_bucketName = ''s1'', watch_bucket = 5,
       watch_freq = 50000000\<rparr>]"
  "trace example_container =
     [EvNewBucket 0, EvNewBucket (Suc 0), EvNewBucket 2, EvReportActivity 2,
      EvNewBucket 3, EvReportActivity 3, EvNewBucket 4, EvNewBucket 5, EvReportActivity 5]"
  by (simp_all add: example_container_def eval_defs)

lemma example_container_namespaces:
  "the_namespace example_container 0 =
     \<lparr>ns_cfg = \<lparr>DefaultBucket = Some \<lparr>Rate = 1, Capacity = 1, MaxIdleMillis = 0\<rparr>,
          DynamicBucketTemplate = None, MaxDynamicBuckets = 0,
          Buckets = [(''b1'', \<lparr>Rate = 100, Capacity = 100, MaxIdleMillis = 0\<rparr>),
                     (''b2'', \<lparr>Rate = 3, Capacity = 3, MaxIdleMillis = 50\<rparr>)]\<rparr>,
      ns_buckets = [(''b1'', 2), (''b2'', 3)], ns_defaultBucket = Some (Suc 0)\<rparr>"
  "the_namespace example_container (Suc 0) =
     \<lparr>ns_cfg = \<lparr>DefaultBucket = Some \<lparr>Rate = 2, Capacity = 2, MaxIdleMillis = 0\<rparr>,
          DynamicBucketTemplate = Some \<lparr>Rate = 5, Capacity = 5, MaxIdleMillis = 0\<rparr>,
          MaxDynamicBuckets = 2,
          Buckets = [(''s1'', \<lparr>Rate = 7, Capacity = 7, MaxIdleMillis = 50\<rparr>)]\<rparr>,
      ns_buckets = [(''s1'', 5)], ns_defaultBucket = Some 4\<rparr>"
  by (simp_all add: example_container_def eval_defs)

lemma example_container_buckets:
  "the_bucket example_container 0 =
     \<lparr>bucket_namespace = ''___GLOBAL___'', bucket_name = ''___DEFAULT_BUCKET___'',
      bucket_cfg = \<lparr>Rate = 10, Capacity = 10, MaxIdleMillis = 0\<rparr>,
      bucket_dyn = False, bucket_activity = []\<rparr>"
  "the_bucket example_container (Suc 0) =
     \<lparr>bucket_namespace = ''ns_a'', bucket_name = ''___DEFAULT_BUCKET___'',
      bucket_cfg = \<lparr>Rate = 1, Capacity = 1, MaxIdleMillis = 0\<rparr>,
      bucket_dyn = False, bucket_activity = []\<rparr>"
  "the_bucket example_container 2 =
     \<lparr>bucket_namespace = ''ns_a'', bucket_name = ''b1'',
      bucket_cfg = \<lparr>Rate = 100, Capacity = 100, MaxIdleMillis = 0\<rparr>,
      bucket_dyn = False, bucket_activity = [True]\<rparr>"
  "the_bucket example_container 3 =
     \<lparr>bucket_namespace = ''ns_a'', bucket_name = ''b2'',
      bucket_cfg = \<lparr>Rate = 3, Capacity = 3, MaxIdleMillis = 50\<rparr>,
      bucket_dyn = False, bucket_activity = [True]\<rparr>"
  "the_bucket example_container 4 =
     \<lparr>bucket_namespace = ''ns_d'', bucket_name = ''___DEFAULT_BUCKET___'',
      bucket_cfg = \<lparr>Rate = 2, Capacity = 2, MaxIdleMillis = 0\<rparr>,
      bucket_dyn = False, bucket_activity = []\<rparr>"
  "the_bucket example_container 5 =
     \<lparr>bucket_namespace = ''ns_d'', bucket_name = ''s1'',
      bucket_cfg = \<lparr>Rate = 7, Capacity = 7, MaxIdleMillis = 50\<rparr>,
      bucket_dyn = False, bucket_activity = [True]\<rparr>"
  by (simp_all add: example_container_def eval_defs)

lemmas example_facts = example_container_fields example_container_namespaces
  example_container_buckets

lemma example_find_a:
  "FindBucket ''ns_d'' ''a'' example_container =
     Some (Some 6,
       emit (EvUnlock 1)
         (bucket_ReportActivity 6
            (snd (createNewNamedBucketFromCfg ''ns_d'' ''a'' 1
               \<lparr>Rate = 5, Capacity = 5, MaxIdleMillis = 0\<rparr> True
               (fold emit [EvRLock 1, EvRUnlock 1, EvLock 1] example_container)))))"
  using FindBucket_dynamic [of example_container "''ns_d''" 1 "''a''"
      "\<lparr>Rate = 5, Capacity = 5, MaxIdleMillis = 0\<rparr>"]
  by (simp add: example_facts bucket_Dynamic_def)

lemma example_container_a_fields:
  "bc_namespaces example_container_a = [''ns_a'' \<mapsto> 0, ''ns_d'' \<mapsto> Suc 0]"
  "bucket_next example_container_a = 7"
  "the_namespace example_container_a (Suc 0) =
     \<lparr>ns_cfg = \<lparr>DefaultBucket = Some \<lparr>Rate = 2, Capacity = 2, MaxIdleMillis = 0\<rparr>,
          DynamicBucketTemplate = Some \<lparr>Rate = 5, Capacity = 5, MaxIdleMillis = 0\<rparr>,
          MaxDynamicBuckets = 2,
          Buckets = [(''s1'', \<lparr>Rate = 7, Capacity = 7, MaxIdleMillis = 50\<rparr>)]\<rparr>,
      ns_buckets = [(''s1'', 5), (''a'', 6)], ns_defaultBucket = Some 4\<rparr>"
  "the_bucket example_container_a 5 = the_bucket example_container 5"
  "the_bucket example_container_a 6 =
     \<lparr>bucket_namespace = ''ns_d'', bucket_name = ''a'',
      bucket_cfg = \<lparr>Rate = 5, Capacity = 5, MaxIdleMillis = 0\<rparr>,
      bucket_dyn = True, bucket_activity = [True]\<rparr>"
  by (simp_all add: example_container_a_def example_find_a example_facts
      ReportActivity_def ActivityChannel_cap_def)

lemma example_find_b:
  "FindBucket ''ns_d'' ''b'' example_container_a =
     Some (Some 7,
       emit (EvUnlock 1)
         (bucket_ReportActivity 7
            (snd (createNewNamedBucketFromCfg ''ns_d'' ''b'' 1
               \<lparr>Rate = 5, Capacity = 5, MaxIdleMillis = 0\<rparr> True
               (fold emit [EvRLock 1, EvRUnlock 1, EvLock 1] example_container_a)))))"
  using FindBucket_dynamic [of example_container_a "''ns_d''" 1 "''b''"
      "\<lparr>Rate = 5, Capacity = 5, MaxIdleMillis = 0\<rparr>"]
  by (simp add: example_container_a_fields example_facts bucket_Dynamic_def)

lemma example_container_ab_fields:
  "bc_namespaces example_container_ab = [''ns_a'' \<mapsto> 0, ''ns_d'' \<mapsto> Suc 0]"
  "bucket_next example_container_ab = 8"
  "the_namespace example_container_ab (Suc 0) =
     \<lparr>ns_cfg = \<lparr>DefaultBucket = Some \<lparr>Rate = 2, Capacity = 2, MaxIdleMillis = 0\<rparr>,
          DynamicBucketTemplate = Some \<lparr>Rate = 5, Capacity = 5, MaxIdleMillis = 0\<rparr>,
          MaxDynamicBuckets = 2,
          Buckets = [(''s1'', \<lparr>Rate = 7, Capacity = 7, MaxIdleMillis = 50\<rparr>)]\<rparr>,
      ns_buckets = [(''s1'', 5), (''a'', 6), (''b'', 7)], ns_defaultBucket = Some 4\<rparr>"
  "bucket_dyn (the_bucket example_container_ab 5) = False"
  "bucket_dyn (the_bucket example_container_ab 6) = True"
  "bucket_dyn (the_bucket example_container_ab 7) = True"
  by (simp_all add: example_container_ab_def example_find_b example_container_a_fields
      example_facts)


section \<open>Activity reports of FindBucket\<close>

lemma FindBucket_return_Some:
  "FindBucket_return (Some b) deferred s = (Some b, fold emit deferred (bucket_ReportActivity b s))"
  by (simp add: FindBucket_return_def)

lemma FindBucket_return_None:
  "FindBucket_return None deferred s = (None, fold emit deferred s)"
  by (simp add: FindBucket_return_def)

text \<open>
  C8. Every call of \<open>FindBucket\<close> returns, and the calls it makes are the stretch \<open>new\<close>
  that it adds to the trace. When it returns a bucket, that stretch has a call of
  ReportActivity on the returned bucket and on no other, and the bucket's activity flag
  is set on return; when it returns nil, the stretch has no call of ReportActivity and
  no bucket has changed.
\<close>

theorem FindBucket_reports_activity:
  "\<exists>r s' new. FindBucket namespace name s = Some (r, s') \<and> trace s' = trace s @ new
     \<and> (case r of
          Some b \<Rightarrow>
            set new \<inter> range EvReportActivity = {EvReportActivity b}
            \<and> bucket_activity (the_bucket s' b) \<noteq> []
        | None \<Rightarrow>
            set new \<inter> range EvReportActivity = {} \<and> the_bucket s' = the_bucket s)"
proof (cases rule: FindBucket_cases [of s namespace name])
  case unconfigured
  show ?thesis
  proof (cases "bc_defaultBucket s")
    case None
    with unconfigured show ?thesis by (simp add: FindBucket_return_None)
  next
    case (Some b)
    with unconfigured show ?thesis by (auto simp: FindBucket_return_Some)
  qed
next
  case (present ns b)
  then show ?thesis by (auto simp: FindBucket_return_Some)
next
  case (default ns)
  show ?thesis
  proof (cases "ns_defaultBucket (the_namespace s ns)")
    case None
    with default show ?thesis by (auto simp: FindBucket_return_None)
  next
    case (Some b)
    with default show ?thesis by (auto simp: FindBucket_return_Some)
  qed
next
  case (cap ns t)
  then show ?thesis by auto
next
  case (created ns t c dyn)
  then show ?thesis by auto
qed

theorem FindBucket_reports_activity_witness:
  "(\<exists>s' new. FindBucket ''ns_a'' ''b1'' example_container = Some (Some 2, s')
       \<and> trace s' = trace example_container @ new
       \<and> set new \<inter> range EvReportActivity = {EvReportActivity 2}
       \<and> bucket_activity (the_bucket s' 2) \<noteq> [])
   \<and> (\<exists>s' new. FindBucket ''ns_d'' ''c'' example_container_ab = Some (None, s')
       \<and> trace s' = trace example_container_ab @ new
       \<and> set new \<inter> range EvReportActivity = {}
       \<and> the_bucket s' = the_bucket example_container_ab)"
proof -
  have found: "map_option fst (FindBucket ''ns_a'' ''b1'' example_container) = Some (Some 2)"
    by (simp add: FindBucket_present [of _ _ 0 _ 2] example_facts)
  have nil: "map_option fst (FindBucket ''ns_d'' ''c'' example_container_ab) = Some None"
    by (simp add: FindBucket_cap [of _ _ 1 _ "\<lparr>Rate = 5, Capacity = 5, MaxIdleMillis = 0\<rparr>"]
        example_container_ab_fields bucket_Dynamic_def)
  show ?thesis
    using FindBucket_reports_activity [of "''ns_a''" "''b1''" example_container]
      FindBucket_reports_activity [of "''ns_d''" "''c''" example_container_ab] found nil
    by auto
qed


section \<open>The watcher\<close>

lemma the_other_updates [simp]:
  "the_bucket (s\<lparr>watchers := ws\<rparr>) = the_bucket s"
  "the_namespace (s\<lparr>watchers := ws\<rparr>) = the_namespace s"
  "the_bucket (s\<lparr>bc_namespaces := m\<rparr>) = the_bucket s"
  "the_namespace (s\<lparr>bc_namespaces := m\<rparr>) = the_namespace s"
  "the_bucket (s\<lparr>bc_defaultBucket := d\<rparr>) = the_bucket s"
  "the_namespace (s\<lparr>bc_defaultBucket := d\<rparr>) = the_namespace s"
  by (simp_all add: the_bucket_def the_namespace_def fun_eq_iff)

lemma watch_remove_fields [simp]:
  "bc_cfg (watch_remove w s) = bc_cfg s"
  "bc_namespaces (watch_remove w s) = bc_namespaces s"
  "bc_defaultBucket (watch_remove w s) = bc_defaultBucket s"
  "bucket_next (watch_remove w s) = bucket_next s"
  "namespace_next (watch_remove w s) = namespace_next s"
  "watchers (watch_remove w s) = remove1 w (watchers s)"
  "trace (watch_remove w s) =
     trace s @ [EvLock (watch_ns w), EvDelete (watch_ns w) (watch_bucketName w),
                EvDestroy (watch_bucket w), EvUnlock (watch_ns w)]"
  "the_bucket (watch_remove w s) = the_bucket s"
  "the_namespace (watch_remove w s) =
     (the_namespace s)(watch_ns w := (the_namespace s (watch_ns w))\<lparr>ns_buckets :=
        AList.delete (watch_bucketName w) (ns_buckets (the_namespace s (watch_ns w)))\<rparr>)"
  by (simp_all add: watch_remove_def Let_def)

lemma watch_tick_active:
  "bucket_activity (the_bucket s (watch_bucket w)) \<noteq> [] \<Longrightarrow>
   watch_tick w s = snd (bucket_ActivityDetected (watch_bucket w) s)"
  by (simp add: watch_tick_def split_beta)

lemma watch_tick_idle:
  "bucket_activity (the_bucket s (watch_bucket w)) = [] \<Longrightarrow>
   watch_tick w s = watch_remove w (snd (bucket_ActivityDetected (watch_bucket w) s))"
  by (simp add: watch_tick_def split_beta)

lemma example_run_idle:
  "run [Tick 0, Tick 1, Tick 0, Tick 0] example_container = Some example_container_idle"
  by (simp add: example_container_idle_def)

lemma example_container_idle_eq:
  "example_container_idle =
     watch_tick \<lparr>watch_ns = Suc 0, watch_bucketName = ''s1'', watch_bucket = 5,
                 watch_freq = 50000000\<rparr>
       (watch_tick \<lparr>watch_ns = 0, watch_bucketName = ''b2'', watch_bucket = 3,
                     watch_freq = 50000000\<rparr>
         (watch_tick \<lparr>watch_ns = Suc 0, watch_bucketName = ''s1'', watch_bucket = 5,
                       watch_freq = 50000000\<rparr>
           (watch_tick \<lparr>watch_ns = 0, watch_bucketName = ''b2'', watch_bucket = 3,
                         watch_freq = 50000000\<rparr> example_container)))"
  by (simp add: example_container_idle_def example_facts watch_tick_active watch_tick_idle
      ActivityDetected_def word_sless_alt)

lemma example_container_idle_fields:
  "bc_namespaces example_container_idle = [''ns_a'' \<mapsto> 0, ''ns_d'' \<mapsto> Suc 0]"
  "bucket_next example_container_idle = 6"
  "watchers example_container_idle = []"
  "the_namespace example_container_idle 0 =
     \<lparr>ns_cfg = \<lparr>DefaultBucket = Some \<lparr>Rate = 1, Capacity = 1, MaxIdleMillis = 0\<rparr>,
          DynamicBucketTemplate = None, MaxDynamicBuckets = 0,
          Buckets = [(''b1'', \<lparr>Rate = 100, Capacity = 100, MaxIdleMillis = 0\<rparr>),
                     (''b2'', \<lparr>Rate = 3, Capacity = 3, MaxIdleMillis = 50\<rparr>)]\<rparr>,
      ns_buckets = [(''b1'', 2)], ns_defaultBucket = Some (Suc 0)\<rparr>"
  "the_namespace example_container_idle (Suc 0) =
     \<lparr>ns_cfg = \<lparr>DefaultBucket = Some \<lparr>Rate = 2, Capacity = 2, MaxIdleMillis = 0\<rparr>,
          DynamicBucketTemplate = Some \<lparr>Rate = 5, Capacity = 5, MaxIdleMillis = 0\<rparr>,
          MaxDynamicBuckets = 2,
          Buckets = [(''s1'', \<lparr>Rate = 7, Capacity = 7, MaxIdleMillis = 50\<rparr>)]\<rparr>,
      ns_buckets = [], ns_defaultBucket = Some 4\<rparr>"
  "trace example_container_idle =
     trace example_container @
     [EvLock 0, EvDelete 0 ''b2'', EvDestroy 3, EvUnlock 0,
      EvLock (Suc 0), EvDelete (Suc 0) ''s1'', EvDestroy 5, EvUnlock (Suc 0)]"
  by (simp_all add: example_container_idle_eq example_facts watch_tick_active watch_tick_idle
      ActivityDetected_def)

text \<open>
  The cascade on the example container: an unconfigured namespace, a bucket of the map, the
  default of a namespace without a template, a dynamic bucket below the cap, a configured
  bucket that the watcher removed, and a name refused at the cap.
\<close>

theorem FindBucket_cascade_witness:
  "bc_namespaces example_container ''ns_z'' = None
   \<and> map_option fst (FindBucket ''ns_z'' ''x'' example_container) = Some (Some 0)
   \<and> bc_namespaces example_container ''ns_a'' = Some 0
   \<and> map_of (ns_buckets (the_namespace example_container 0)) ''b1'' = Some 2
   \<and> map_option fst (FindBucket ''ns_a'' ''b1'' example_container) = Some (Some 2)
   \<and> map_of (ns_buckets (the_namespace example_container 0)) ''x'' = None
   \<and> DynamicBucketTemplate (ns_cfg (the_namespace example_container 0)) = None
   \<and> map_option fst (FindBucket ''ns_a'' ''x'' example_container) = Some (Some 1)
   \<and> bc_namespaces example_container ''ns_d'' = Some 1
   \<and> map_of (ns_buckets (the_namespace example_container 1)) ''a'' = None
   \<and> DynamicBucketTemplate (ns_cfg (the_namespace example_container 1)) =
       Some \<lparr>Rate = 5, Capacity = 5, MaxIdleMillis = 0\<rparr>
   \<and> map_of (Buckets (ns_cfg (the_namespace example_container 1))) ''a'' = None
   \<and> MaxDynamicBuckets (ns_cfg (the_namespace example_container 1)) = 2
   \<and> countDynamicBuckets ''ns_d'' example_container = Some 0
   \<and> bucket_next example_container = 6
   \<and> map_option fst (createNewNamedBucket ''ns_d'' ''a'' 1 example_container) =
       Some (Some 6)
   \<and> (\<exists>s'. FindBucket ''ns_d'' ''a'' example_container = Some (Some 6, s')
         \<and> bucket_next s' = 7
         \<and> map_of (ns_buckets (the_namespace s' 1)) ''a'' = Some 6
         \<and> the_bucket s' 6 =
             \<lparr>bucket_namespace = ''ns_d'', bucket_name = ''a'',
              bucket_cfg = \<lparr>Rate = 5, Capacity = 5, MaxIdleMillis = 0\<rparr>,
              bucket_dyn = True, bucket_activity = [True]\<rparr>)
   \<and> bc_namespaces example_container_idle ''ns_d'' = Some 1
   \<and> map_of (ns_buckets (the_namespace example_container_idle 1)) ''s1'' = None
   \<and> map_of (Buckets (ns_cfg (the_namespace example_container_idle 1))) ''s1'' =
       Some \<lparr>Rate = 7, Capacity = 7, MaxIdleMillis = 50\<rparr>
   \<and> bucket_next example_container_idle = 6
   \<and> (\<exists>s'. FindBucket ''ns_d'' ''s1'' example_container_idle = Some (Some 6, s')
         \<and> bucket_next s' = 7
         \<and> map_of (ns_buckets (the_namespace s' 1)) ''s1'' = Some 6
         \<and> the_bucket s' 6 =
             \<lparr>bucket_namespace = ''ns_d'', bucket_name = ''s1'',
              bucket_cfg = \<lparr>Rate = 7, Capacity = 7, MaxIdleMillis = 50\<rparr>,
              bucket_dyn = False, bucket_activity = [True]\<rparr>)
   \<and> bc_namespaces example_container_ab ''ns_d'' = Some 1
   \<and> map_of (ns_buckets (the_namespace example_container_ab 1)) ''c'' = None
   \<and> map_of (Buckets (ns_cfg (the_namespace example_container_ab 1))) ''c'' = None
   \<and> MaxDynamicBuckets (ns_cfg (the_namespace example_container_ab 1)) = 2
   \<and> countDynamicBuckets ''ns_d'' example_container_ab = Some 2
   \<and> map_option fst (FindBucket ''ns_d'' ''c'' example_container_ab) = Some None
   \<and> (\<exists>s'. FindBucket ''ns_d'' ''c'' example_container_ab = Some (None, s')
         \<and> bucket_next s' = 8
         \<and> the_namespace s' = the_namespace example_container_ab)"
proof -
  have unconfigured:
    "map_option fst (FindBucket ''ns_z'' ''x'' example_container) = Some (Some 0)"
    using FindBucket_cascade [of example_container "''ns_z''" "''x''"]
    by (simp add: example_facts)
  have present:
    "map_option fst (FindBucket ''ns_a'' ''b1'' example_container) = Some (Some 2)"
    using FindBucket_cascade [of example_container "''ns_a''" "''b1''"]
    by (simp add: example_facts)
  have default:
    "map_option fst (FindBucket ''ns_a'' ''x'' example_container) = Some (Some 1)"
    using FindBucket_cascade [of example_container "''ns_a''" "''x''"]
    by (simp add: example_facts)
  have count0: "countDynamicBuckets ''ns_d'' example_container = Some 0"
    by (simp add: countDynamicBuckets_def example_facts bucket_Dynamic_def)
  have dynamic:
    "map_option fst (createNewNamedBucket ''ns_d'' ''a'' 1 example_container) =
       Some (Some 6)
     \<and> (\<exists>s'. FindBucket ''ns_d'' ''a'' example_container = Some (Some 6, s')
         \<and> bucket_next s' = 7
         \<and> map_of (ns_buckets (the_namespace s' 1)) ''a'' = Some 6
         \<and> the_bucket s' 6 =
             \<lparr>bucket_namespace = ''ns_d'', bucket_name = ''a'',
              bucket_cfg = \<lparr>Rate = 5, Capacity = 5, MaxIdleMillis = 0\<rparr>,
              bucket_dyn = True, bucket_activity = [True]\<rparr>)"
    using FindBucket_cascade [of example_container "''ns_d''" "''a''"]
    by (simp add: example_facts count0 del: map_option_eq_Some) (elim conjE exE, simp)
  have static:
    "\<exists>s'. FindBucket ''ns_d'' ''s1'' example_container_idle = Some (Some 6, s')
         \<and> bucket_next s' = 7
         \<and> map_of (ns_buckets (the_namespace s' 1)) ''s1'' = Some 6
         \<and> the_bucket s' 6 =
             \<lparr>bucket_namespace = ''ns_d'', bucket_name = ''s1'',
              bucket_cfg = \<lparr>Rate = 7, Capacity = 7, MaxIdleMillis = 50\<rparr>,
              bucket_dyn = False, bucket_activity = [True]\<rparr>"
    using FindBucket_cascade [of example_container_idle "''ns_d''" "''s1''"]
    by (simp add: example_container_idle_fields)
  have count2: "countDynamicBuckets ''ns_d'' example_container_ab = Some 2"
    by (simp add: countDynamicBuckets_def example_container_ab_fields bucket_Dynamic_def)
  have cap:
    "map_option fst (FindBucket ''ns_d'' ''c'' example_container_ab) = Some None
     \<and> (\<exists>s'. FindBucket ''ns_d'' ''c'' example_container_ab = Some (None, s')
         \<and> bucket_next s' = 8
         \<and> the_namespace s' = the_namespace example_container_ab)"
    using FindBucket_cascade [of example_container_ab "''ns_d''" "''c''"]
    by (simp add: example_container_ab_fields count2 del: map_option_eq_Some) argo
  show ?thesis
    using unconfigured present default dynamic static cap count0 count2
    by (simp add: example_facts example_container_ab_fields example_container_idle_fields)
qed


section \<open>A static bucket that the watcher removed\<close>

text \<open>
  C2, as the code has it. A Find for a name that is missing from the namespace's map
  while the namespace's configuration has a bucket of that name (the state after the
  watcher removed a static bucket): without a template the bucket is not built again,
  Find returns the namespace default (nil when there is none) and leaves the map and the
  store of buckets as they are; with a template \<open>createNewNamedBucket\<close> finds the
  configuration under the name and builds the bucket again from it, with dynamic = false
  and without looking at the cap.
\<close>

theorem FindBucket_removed_static:
  assumes "bc_namespaces s namespace = Some ns"
    and "map_of (ns_buckets (the_namespace s ns)) name = None"
    and "map_of (Buckets (ns_cfg (the_namespace s ns))) name = Some c"
  shows "(DynamicBucketTemplate (ns_cfg (the_namespace s ns)) = None \<longrightarrow>
           (\<exists>s'. FindBucket namespace name s =
                    Some (ns_defaultBucket (the_namespace s ns), s')
                 \<and> the_namespace s' = the_namespace s
                 \<and> bucket_next s' = bucket_next s))
       \<and> (DynamicBucketTemplate (ns_cfg (the_namespace s ns)) \<noteq> None \<longrightarrow>
           (\<exists>s'. FindBucket namespace name s = Some (Some (bucket_next s), s')
                 \<and> map_of (ns_buckets (the_namespace s' ns)) name = Some (bucket_next s)
                 \<and> the_bucket s' (bucket_next s) =
                     \<lparr>bucket_namespace = namespace, bucket_name = name, bucket_cfg = c,
                      bucket_dyn = False, bucket_activity = [True]\<rparr>))"
proof (intro conjI impI)
  assume "DynamicBucketTemplate (ns_cfg (the_namespace s ns)) = None"
  with assms have "FindBucket namespace name s =
      Some (FindBucket_return (ns_defaultBucket (the_namespace s ns)) []
              (emit (EvRUnlock ns) (emit (EvRLock ns) s)))"
    by (simp add: FindBucket_default)
  then show "\<exists>s'. FindBucket namespace name s =
                    Some (ns_defaultBucket (the_namespace s ns), s')
                 \<and> the_namespace s' = the_namespace s
                 \<and> bucket_next s' = bucket_next s"
    by (cases "ns_defaultBucket (the_namespace s ns)")
       (simp_all add: FindBucket_return_Some FindBucket_return_None)
next
  assume "DynamicBucketTemplate (ns_cfg (the_namespace s ns)) \<noteq> None"
  then obtain t where "DynamicBucketTemplate (ns_cfg (the_namespace s ns)) = Some t"
    by auto
  with assms have "FindBucket namespace name s =
     Some (Some (bucket_next s),
       emit (EvUnlock ns)
         (bucket_ReportActivity (bucket_next s)
            (snd (createNewNamedBucketFromCfg namespace name ns c False
               (fold emit [EvRLock ns, EvRUnlock ns, EvLock ns] s)))))"
    by (simp add: FindBucket_static)
  then show "\<exists>s'. FindBucket namespace name s = Some (Some (bucket_next s), s')
                 \<and> map_of (ns_buckets (the_namespace s' ns)) name = Some (bucket_next s)
                 \<and> the_bucket s' (bucket_next s) =
                     \<lparr>bucket_namespace = namespace, bucket_name = name, bucket_cfg = c,
                      bucket_dyn = False, bucket_activity = [True]\<rparr>"
    by (simp add: update_conv ReportActivity_def ActivityChannel_cap_def)
qed

theorem FindBucket_removed_static_witness:
  "bc_namespaces example_container_idle ''ns_a'' = Some 0
   \<and> map_of (ns_buckets (the_namespace example_container_idle 0)) ''b2'' = None
   \<and> map_of (Buckets (ns_cfg (the_namespace example_container_idle 0))) ''b2''
       = Some \<lparr>Rate = 3, Capacity = 3, MaxIdleMillis = 50\<rparr>
   \<and> DynamicBucketTemplate (ns_cfg (the_namespace example_container_idle 0)) = None
   \<and> (\<exists>s'. FindBucket ''ns_a'' ''b2'' example_container_idle = Some (Some 1, s')
          \<and> the_namespace s' = the_namespace example_container_idle
          \<and> bucket_next s' = 6)
   \<and> bc_namespaces example_container_idle ''ns_d'' = Some 1
   \<and> map_of (ns_buckets (the_namespace example_container_idle 1)) ''s1'' = None
   \<and> map_of (Buckets (ns_cfg (the_namespace example_container_idle 1))) ''s1''
       = Some \<lparr>Rate = 7, Capacity = 7, MaxIdleMillis = 50\<rparr>
   \<and> DynamicBucketTemplate (ns_cfg (the_namespace example_container_idle 1)) \<noteq> None
   \<and> (\<exists>s'. FindBucket ''ns_d'' ''s1'' example_container_idle = Some (Some 6, s')
          \<and> map_of (ns_buckets (the_namespace s' 1)) ''s1'' = Some 6
          \<and> the_bucket s' 6 =
              \<lparr>bucket_namespace = ''ns_d'', bucket_name = ''s1'',
               bucket_cfg = \<lparr>Rate = 7, Capacity = 7, MaxIdleMillis = 50\<rparr>,
               bucket_dyn = False, bucket_activity = [True]\<rparr>)"
  using FindBucket_removed_static [of example_container_idle "''ns_a''" 0 "''b2''"
      "\<lparr>Rate = 3, Capacity = 3, MaxIdleMillis = 50\<rparr>"]
    FindBucket_removed_static [of example_container_idle "''ns_d''" 1 "''s1''"
      "\<lparr>Rate = 7, Capacity = 7, MaxIdleMillis = 50\<rparr>"]
  by (simp add: example_container_idle_fields)

text \<open>
  C2 as stated fails. In the example the watcher has removed the static bucket \<open>s1\<close> of
  \<open>ns_d\<close>, a namespace with a template: the bucket is gone (\<open>Exists\<close> is false) and has
  been destroyed, and the next Find for \<open>s1\<close> builds a new static bucket from the
  configuration of \<open>s1\<close> (not from the template) and puts it into the map again.
\<close>

theorem FindBucket_recreates_static_counterexample:
  "run [Tick 0, Tick 1, Tick 0, Tick 0] example_container = Some example_container_idle
   \<and> Exists ''ns_d'' ''s1'' example_container
   \<and> \<not> Exists ''ns_d'' ''s1'' example_container_idle
   \<and> EvDestroy 5 \<in> set (trace example_container_idle)
   \<and> map_option fst (FindBucket ''ns_d'' ''s1'' example_container_idle) = Some (Some 6)
   \<and> the_bucket (snd (the (FindBucket ''ns_d'' ''s1'' example_container_idle))) 6 =
       \<lparr>bucket_namespace = ''ns_d'', bucket_name = ''s1'',
        bucket_cfg = \<lparr>Rate = 7, Capacity = 7, MaxIdleMillis = 50\<rparr>,
        bucket_dyn = False, bucket_activity = [True]\<rparr>
   \<and> Exists ''ns_d'' ''s1'' (snd (the (FindBucket ''ns_d'' ''s1'' example_container_idle)))"
proof -
  have "FindBucket ''ns_d'' ''s1'' example_container_idle =
     Some (Some 6,
       emit (EvUnlock 1)
         (bucket_ReportActivity 6
            (snd (createNewNamedBucketFromCfg ''ns_d'' ''s1'' 1
               \<lparr>Rate = 7, Capacity = 7, MaxIdleMillis = 50\<rparr> False
               (fold emit [EvRLock 1, EvRUnlock 1, EvLock 1] example_container_idle)))))"
    using FindBucket_static [of example_container_idle "''ns_d''" 1 "''s1''"
        "\<lparr>Rate = 5, Capacity = 5, MaxIdleMillis = 0\<rparr>"
        "\<lparr>Rate = 7, Capacity = 7, MaxIdleMillis = 50\<rparr>"]
    by (simp add: example_container_idle_fields)
  then have "Exists ''ns_d'' ''s1'' example_container
   \<and> \<not> Exists ''ns_d'' ''s1'' example_container_idle
   \<and> EvDestroy 5 \<in> set (trace example_container_idle)
   \<and> map_option fst (FindBucket ''ns_d'' ''s1'' example_container_idle) = Some (Some 6)
   \<and> the_bucket (snd (the (FindBucket ''ns_d'' ''s1'' example_container_idle))) 6 =
       \<lparr>bucket_namespace = ''ns_d'', bucket_name = ''s1'',
        bucket_cfg = \<lparr>Rate = 7, Capacity = 7, MaxIdleMillis = 50\<rparr>,
        bucket_dyn = False, bucket_activity = [True]\<rparr>
   \<and> Exists ''ns_d'' ''s1'' (snd (the (FindBucket ''ns_d'' ''s1'' example_container_idle)))"
    by (simp add: Exists_def example_container_idle_fields example_facts
        ReportActivity_def ActivityChannel_cap_def)
  with example_run_idle show ?thesis by (rule conjI)
qed


section \<open>No default fallback when a template is configured\<close>

text \<open>
  C10. In a namespace with a template and a default bucket \<open>d\<close>, a Find for a name that
  the map does not have never takes the default: it returns nil or the bucket it has just
  created (a new object, so not \<open>d\<close> when \<open>d\<close> is an object that exists), and it returns nil
  when the name has no configuration of its own and the cap is positive and reached.
\<close>

theorem FindBucket_template_never_default:
  assumes "bc_namespaces s namespace = Some ns"
    and "map_of (ns_buckets (the_namespace s ns)) name = None"
    and "DynamicBucketTemplate (ns_cfg (the_namespace s ns)) = Some t"
    and "ns_defaultBucket (the_namespace s ns) = Some d"
  shows "(map_option fst (FindBucket namespace name s) = Some None
          \<or> map_option fst (FindBucket namespace name s) = Some (Some (bucket_next s)))
       \<and> (d < bucket_next s \<longrightarrow>
            map_option fst (FindBucket namespace name s) \<noteq> Some (Some d))
       \<and> (map_of (Buckets (ns_cfg (the_namespace s ns))) name = None
            \<and> 0 < MaxDynamicBuckets (ns_cfg (the_namespace s ns))
            \<and> MaxDynamicBuckets (ns_cfg (the_namespace s ns))
                \<le> int (length (filter (\<lambda>entry. bucket_Dynamic s (snd entry))
                                (ns_buckets (the_namespace s ns))))
          \<longrightarrow> map_option fst (FindBucket namespace name s) = Some None)"
proof -
  have two: "map_option fst (FindBucket namespace name s) = Some None
      \<or> map_option fst (FindBucket namespace name s) = Some (Some (bucket_next s))"
    using assms by (cases rule: FindBucket_cases [of s namespace name]) auto
  have cap: "map_option fst (FindBucket namespace name s) = Some None"
    if "map_of (Buckets (ns_cfg (the_namespace s ns))) name = None"
      and "0 < MaxDynamicBuckets (ns_cfg (the_namespace s ns))"
      and "MaxDynamicBuckets (ns_cfg (the_namespace s ns))
            \<le> int (length (filter (\<lambda>entry. bucket_Dynamic s (snd entry))
                            (ns_buckets (the_namespace s ns))))"
    using assms(1-3) that by (simp add: FindBucket_cap)
  from two cap show ?thesis by auto
qed

theorem FindBucket_template_never_default_witness:
  "bc_namespaces example_container_ab ''ns_d'' = Some 1
   \<and> map_of (ns_buckets (the_namespace example_container_ab 1)) ''c'' = None
   \<and> DynamicBucketTemplate (ns_cfg (the_namespace example_container_ab 1))
       = Some \<lparr>Rate = 5, Capacity = 5, MaxIdleMillis = 0\<rparr>
   \<and> ns_defaultBucket (the_namespace example_container_ab 1) = Some 4
   \<and> 4 < bucket_next example_container_ab
   \<and> map_of (Buckets (ns_cfg (the_namespace example_container_ab 1))) ''c'' = None
   \<and> MaxDynamicBuckets (ns_cfg (the_namespace example_container_ab 1)) = 2
   \<and> int (length (filter (\<lambda>entry. bucket_Dynamic example_container_ab (snd entry))
                    (ns_buckets (the_namespace example_container_ab 1)))) = 2
   \<and> map_option fst (FindBucket ''ns_d'' ''c'' example_container_ab) = Some None
   \<and> map_option fst (FindBucket ''ns_d'' ''c'' example_container_ab) \<noteq> Some (Some 4)"
  using FindBucket_template_never_default [of example_container_ab "''ns_d''" 1 "''c''"
      "\<lparr>Rate = 5, Capacity = 5, MaxIdleMillis = 0\<rparr>" 4]
  by (simp add: example_container_ab_fields bucket_Dynamic_def del: map_option_eq_Some)


section \<open>The Allow handler of the gRPC endpoint\<close>

lemma invalid_iff:
  "invalid req \<longleftrightarrow>
     GetNamespace req = [] \<or> GetName req = [] \<or> NumTokensRequested req = Some 0"
  by (auto simp: invalid_def GetNumTokensRequested_def split: option.splits)

lemma Allow_invalid:
  "invalid req \<Longrightarrow>
   Allow qs req =
     \<lparr>Status = Some AllowResponse_FAILED, NumTokensGranted = None, WaitMillis = None\<rparr>"
  by (simp add: Allow_def)

lemma Allow_valid:
  assumes "\<not> invalid req"
    and "qs (GetNamespace req) (GetName req)
           (case NumTokensRequested req of None \<Rightarrow> 1 | Some n \<Rightarrow> n)
           (case MaxWaitMillisOverride req of None \<Rightarrow> - 1 | Some w \<Rightarrow> w)
         = (granted, wait, err)"
  shows "Allow qs req =
    (case err of
       Some (QuotaServiceError reason) \<Rightarrow>
         \<lparr>Status = Some (case reason of ER_other x \<Rightarrow> AllowResponse_Status_0
                                       | _ \<Rightarrow> AllowResponse_REJECTED),
          NumTokensGranted = None, WaitMillis = None\<rparr>
     | Some (OtherError msg) \<Rightarrow>
         \<lparr>Status = Some AllowResponse_FAILED, NumTokensGranted = None, WaitMillis = None\<rparr>
     | None \<Rightarrow>
         \<lparr>Status = Some (if 0 <s wait then AllowResponse_OK_WAIT else AllowResponse_OK),
          NumTokensGranted = Some granted, WaitMillis = Some wait\<rparr>)"
proof -
  have n: "(if NumTokensRequested req \<noteq> None then GetNumTokensRequested req else 1) =
      (case NumTokensRequested req of None \<Rightarrow> 1 | Some n \<Rightarrow> n)"
    by (simp add: GetNumTokensRequested_def split: option.splits)
  have w: "(if MaxWaitMillisOverride req \<noteq> None then GetMaxWaitMillisOverride req else - 1) =
      (case MaxWaitMillisOverride req of None \<Rightarrow> - 1 | Some w \<Rightarrow> w)"
    by (simp add: GetMaxWaitMillisOverride_def split: option.splits)
  show ?thesis
    using assms unfolding Allow_def Let_def n w
    by (simp add: Nanoseconds_def split: option.splits error.splits ErrorReason.splits)
qed

text \<open>
  The field \<open>wait_millis\<close> of the response is set exactly when the status is OK or
  OK_WAIT. What it is set to is the wait that the service returned, as a count of
  nanoseconds.
\<close>

lemma Allow_WaitMillis_set_iff:
  "WaitMillis (Allow qs req) \<noteq> None \<longleftrightarrow>
     Status (Allow qs req) = Some AllowResponse_OK
     \<or> Status (Allow qs req) = Some AllowResponse_OK_WAIT"
proof (cases "invalid req")
  case True
  then show ?thesis by (simp add: Allow_invalid)
next
  case False
  obtain granted wait err where
    "qs (GetNamespace req) (GetName req)
       (case NumTokensRequested req of None \<Rightarrow> 1 | Some n \<Rightarrow> n)
       (case MaxWaitMillisOverride req of None \<Rightarrow> - 1 | Some w \<Rightarrow> w)
     = (granted, wait, err)"
    by (metis prod_cases3)
  from Allow_valid [where qs = qs and req = req, OF False this] show ?thesis
    by (simp split: option.splits error.splits ErrorReason.splits)
qed

lemma Allow_WaitMillis_nanoseconds:
  assumes "\<not> invalid req"
    and "qs (GetNamespace req) (GetName req)
           (case NumTokensRequested req of None \<Rightarrow> 1 | Some n \<Rightarrow> n)
           (case MaxWaitMillisOverride req of None \<Rightarrow> - 1 | Some w \<Rightarrow> w)
         = (granted, wait, None)"
  shows "WaitMillis (Allow qs req) = Some (Nanoseconds wait)"
  using Allow_valid [where qs = qs and req = req, OF assms] by (simp add: Nanoseconds_def)

text \<open>
  C3 fails on the code. The service grants one token after a wait of one millisecond,
  the status is OK_WAIT, and the field \<open>wait_millis\<close> of the response is 1000000, the
  count of nanoseconds, where the wait in milliseconds is 1.
\<close>

theorem Allow_wait_millis_is_nanoseconds:
  "fst (snd (qs_grant_after_1ms ''ns'' ''b'' 1 (- 1))) = 1 * Millisecond
   \<and> Status (Allow qs_grant_after_1ms example_request) = Some AllowResponse_OK_WAIT
   \<and> NumTokensGranted (Allow qs_grant_after_1ms example_request) = Some 1
   \<and> WaitMillis (Allow qs_grant_after_1ms example_request) = Some 1000000
   \<and> WaitMillis (Allow qs_grant_after_1ms example_request) \<noteq> Some 1"
  by (simp add: Allow_def invalid_def example_request_def qs_grant_after_1ms_def
      GetName_def GetNamespace_def Millisecond_def Nanoseconds_def word_sless_alt)

text \<open>
  C7, as the code has it. The status is FAILED exactly when the request is malformed
  (empty namespace, empty name, or a token count that is set and is 0) or the service
  returns an error that is not a \<open>QuotaServiceError\<close>. A negative token count is not
  malformed: it reaches the service as it is, and what the service grants for it is what
  the response carries.
\<close>

theorem Allow_FAILED_iff:
  "(Status (Allow qs req) = Some AllowResponse_FAILED \<longleftrightarrow>
      (GetNamespace req = [] \<or> GetName req = [] \<or> NumTokensRequested req = Some 0)
      \<or> (\<exists>msg. snd (snd (qs (GetNamespace req) (GetName req)
                (case NumTokensRequested req of None \<Rightarrow> 1 | Some n \<Rightarrow> n)
                (case MaxWaitMillisOverride req of None \<Rightarrow> - 1 | Some w \<Rightarrow> w)))
            = Some (OtherError msg)))
   \<and> (\<forall>n granted wait.
         NumTokensRequested req = Some n \<and> n <s 0
         \<and> GetNamespace req \<noteq> [] \<and> GetName req \<noteq> []
         \<and> qs (GetNamespace req) (GetName req) n
              (case MaxWaitMillisOverride req of None \<Rightarrow> - 1 | Some w \<Rightarrow> w)
            = (granted, wait, None)
         \<longrightarrow> \<not> invalid req
             \<and> Status (Allow qs req) \<noteq> Some AllowResponse_FAILED
             \<and> NumTokensGranted (Allow qs req) = Some granted)"
proof (intro conjI allI impI)
  show "Status (Allow qs req) = Some AllowResponse_FAILED \<longleftrightarrow>
      (GetNamespace req = [] \<or> GetName req = [] \<or> NumTokensRequested req = Some 0)
      \<or> (\<exists>msg. snd (snd (qs (GetNamespace req) (GetName req)
                (case NumTokensRequested req of None \<Rightarrow> 1 | Some n \<Rightarrow> n)
                (case MaxWaitMillisOverride req of None \<Rightarrow> - 1 | Some w \<Rightarrow> w)))
            = Some (OtherError msg))"
  proof (cases "invalid req")
    case True
    then show ?thesis using invalid_iff [of req] by (simp add: Allow_invalid)
  next
    case False
    obtain granted wait err where q:
      "qs (GetNamespace req) (GetName req)
         (case NumTokensRequested req of None \<Rightarrow> 1 | Some n \<Rightarrow> n)
         (case MaxWaitMillisOverride req of None \<Rightarrow> - 1 | Some w \<Rightarrow> w)
       = (granted, wait, err)"
      by (metis prod_cases3)
    from False have "\<not> (GetNamespace req = [] \<or> GetName req = []
        \<or> NumTokensRequested req = Some 0)"
      by (simp add: invalid_iff)
    with Allow_valid [where qs = qs and req = req, OF False q] q show ?thesis
      by (simp split: option.splits error.splits ErrorReason.splits)
  qed
next
  fix n granted wait
  assume a: "NumTokensRequested req = Some n \<and> n <s 0
         \<and> GetNamespace req \<noteq> [] \<and> GetName req \<noteq> []
         \<and> qs (GetNamespace req) (GetName req) n
              (case MaxWaitMillisOverride req of None \<Rightarrow> - 1 | Some w \<Rightarrow> w)
            = (granted, wait, None)"
  then have "n \<noteq> 0" by auto
  with a have valid: "\<not> invalid req" by (simp add: invalid_iff)
  from a have "qs (GetNamespace req) (GetName req)
         (case NumTokensRequested req of None \<Rightarrow> 1 | Some n \<Rightarrow> n)
         (case MaxWaitMillisOverride req of None \<Rightarrow> - 1 | Some w \<Rightarrow> w)
       = (granted, wait, None)"
    by simp
  from Allow_valid [where qs = qs and req = req, OF valid this] valid
  show "\<not> invalid req" "Status (Allow qs req) \<noteq> Some AllowResponse_FAILED"
    "NumTokensGranted (Allow qs req) = Some granted"
    by simp_all
qed

theorem Allow_FAILED_iff_witness:
  "NumTokensRequested example_request_negative = Some (- 5) \<and> (- 5 :: 64 word) <s 0
   \<and> GetNamespace example_request_negative \<noteq> []
   \<and> GetName example_request_negative \<noteq> []
   \<and> qs_echo ''ns'' ''b'' (- 5) (- 1) = (- 5, 0, None)
   \<and> \<not> invalid example_request_negative
   \<and> Status (Allow qs_echo example_request_negative) \<noteq> Some AllowResponse_FAILED
   \<and> NumTokensGranted (Allow qs_echo example_request_negative) = Some (- 5)"
  using Allow_FAILED_iff [of qs_echo example_request_negative]
  by (simp add: example_request_negative_def qs_echo_def GetNamespace_def GetName_def
      word_sless_alt)

text \<open>
  C7 as stated fails: for a well-formed request the status is FAILED when the service
  returns an error that is not a \<open>QuotaServiceError\<close>.
\<close>

theorem Allow_FAILED_wellformed_counterexample:
  "Status (Allow qs_internal_error example_request) = Some AllowResponse_FAILED
   \<and> GetNamespace example_request \<noteq> []
   \<and> GetName example_request \<noteq> []
   \<and> NumTokensRequested example_request \<noteq> Some 0
   \<and> invalid example_request = False"
  by (simp add: Allow_def invalid_def example_request_def qs_internal_error_def
      GetName_def GetNamespace_def)


section \<open>The cap on dynamic buckets\<close>

lemma update_absent: "k \<notin> fst ` set al \<Longrightarrow> AList.update k v al = al @ [(k, v)]"
  by (induction al) auto

lemma FindBucket_below_cap:
  assumes ns: "bc_namespaces s namespace = Some ns"
    and static: "Buckets (ns_cfg (the_namespace s ns)) = []"
    and tmpl: "DynamicBucketTemplate (ns_cfg (the_namespace s ns)) = Some t"
    and dyn: "\<forall>e \<in> set (ns_buckets (the_namespace s ns)).
                bucket_Dynamic s (snd e) \<and> snd e < bucket_next s"
    and absent: "name \<notin> fst ` set (ns_buckets (the_namespace s ns))"
    and below: "MaxDynamicBuckets (ns_cfg (the_namespace s ns)) \<le> 0
        \<or> int (length (ns_buckets (the_namespace s ns)))
             < MaxDynamicBuckets (ns_cfg (the_namespace s ns))"
  shows "\<exists>s'. FindBucket namespace name s = Some (Some (bucket_next s), s')
      \<and> bc_namespaces s' = bc_namespaces s
      \<and> ns_cfg (the_namespace s' ns) = ns_cfg (the_namespace s ns)
      \<and> ns_buckets (the_namespace s' ns) =
           ns_buckets (the_namespace s ns) @ [(name, bucket_next s)]
      \<and> bucket_next s' = Suc (bucket_next s)
      \<and> bucket_Dynamic s' (bucket_next s)
      \<and> (\<forall>b < bucket_next s. bucket_Dynamic s' b = bucket_Dynamic s b)"
proof -
  have all: "filter (\<lambda>entry. bucket_Dynamic s (snd entry)) (ns_buckets (the_namespace s ns))
      = ns_buckets (the_namespace s ns)"
    using dyn by (simp add: filter_id_conv)
  have none: "map_of (ns_buckets (the_namespace s ns)) name = None"
    using absent by (simp add: map_of_eq_None_iff)
  have "FindBucket namespace name s =
     Some (Some (bucket_next s),
       emit (EvUnlock ns)
         (bucket_ReportActivity (bucket_next s)
            (snd (createNewNamedBucketFromCfg namespace name ns t True
               (fold emit [EvRLock ns, EvRUnlock ns, EvLock ns] s)))))"
    using ns none tmpl below by (intro FindBucket_dynamic) (simp_all add: static all)
  then show ?thesis
    using absent by (simp add: update_absent bucket_Dynamic_def)
qed

lemma FindBucket_at_cap:
  assumes ns: "bc_namespaces s namespace = Some ns"
    and static: "Buckets (ns_cfg (the_namespace s ns)) = []"
    and tmpl: "DynamicBucketTemplate (ns_cfg (the_namespace s ns)) = Some t"
    and dyn: "\<forall>e \<in> set (ns_buckets (the_namespace s ns)).
                bucket_Dynamic s (snd e) \<and> snd e < bucket_next s"
    and absent: "name \<notin> fst ` set (ns_buckets (the_namespace s ns))"
    and cap: "0 < MaxDynamicBuckets (ns_cfg (the_namespace s ns))"
      "MaxDynamicBuckets (ns_cfg (the_namespace s ns))
         \<le> int (length (ns_buckets (the_namespace s ns)))"
  shows "\<exists>s'. FindBucket namespace name s = Some (None, s')
      \<and> bc_namespaces s' = bc_namespaces s
      \<and> the_namespace s' = the_namespace s
      \<and> bucket_next s' = bucket_next s
      \<and> the_bucket s' = the_bucket s"
proof -
  have all: "filter (\<lambda>entry. bucket_Dynamic s (snd entry)) (ns_buckets (the_namespace s ns))
      = ns_buckets (the_namespace s ns)"
    using dyn by (simp add: filter_id_conv)
  have none: "map_of (ns_buckets (the_namespace s ns)) name = None"
    using absent by (simp add: map_of_eq_None_iff)
  have "FindBucket namespace name s =
     Some (None, fold emit [EvRLock ns, EvRUnlock ns, EvLock ns, EvUnlock ns] s)"
    using ns none tmpl cap by (intro FindBucket_cap) (simp_all add: static all)
  then show ?thesis by simp
qed

lemma FindBuckets_dynamic:
  assumes "distinct names"
    and "bc_namespaces s namespace = Some ns"
    and "Buckets (ns_cfg (the_namespace s ns)) = []"
    and "DynamicBucketTemplate (ns_cfg (the_namespace s ns)) = Some t"
    and "MaxDynamicBuckets (ns_cfg (the_namespace s ns)) = M"
    and "\<forall>e \<in> set (ns_buckets (the_namespace s ns)).
            bucket_Dynamic s (snd e) \<and> snd e < bucket_next s"
    and "set names \<inter> fst ` set (ns_buckets (the_namespace s ns)) = {}"
  shows "\<exists>rs s'. FindBuckets namespace names s = Some (rs, s')
      \<and> length rs = length names
      \<and> bucket_next s \<le> bucket_next s'
      \<and> (\<forall>b < bucket_next s. bucket_Dynamic s' b = bucket_Dynamic s b)
      \<and> (\<forall>i < length names.
            if M \<le> 0 \<or> int (length (ns_buckets (the_namespace s ns)) + i) < M
            then \<exists>b. rs ! i = Some b \<and> b < bucket_next s' \<and> bucket_Dynamic s' b
            else rs ! i = None)"
  using assms
proof (induction names arbitrary: s)
  case Nil
  then show ?case by simp
next
  case (Cons name names)
  let ?N = "the_namespace s ns"
  let ?L = "length (ns_buckets ?N)"
  have absent: "name \<notin> fst ` set (ns_buckets ?N)"
    using Cons.prems(7) by auto
  have rest_absent: "set names \<inter> fst ` set (ns_buckets ?N) = {}"
    using Cons.prems(7) by auto
  have distinct_rest: "distinct names" and fresh: "name \<notin> set names"
    using Cons.prems(1) by auto
  show ?case
  proof (cases "M \<le> 0 \<or> int ?L < M")
    case True
    then have below: "MaxDynamicBuckets (ns_cfg ?N) \<le> 0
        \<or> int ?L < MaxDynamicBuckets (ns_cfg ?N)"
      using Cons.prems(5) by simp
    from FindBucket_below_cap [OF Cons.prems(2) Cons.prems(3) Cons.prems(4) Cons.prems(6)
        absent below]
    obtain s1 where s1: "FindBucket namespace name s = Some (Some (bucket_next s), s1)"
      "bc_namespaces s1 = bc_namespaces s"
      "ns_cfg (the_namespace s1 ns) = ns_cfg ?N"
      "ns_buckets (the_namespace s1 ns) = ns_buckets ?N @ [(name, bucket_next s)]"
      "bucket_next s1 = Suc (bucket_next s)"
      "bucket_Dynamic s1 (bucket_next s)"
      "\<forall>b < bucket_next s. bucket_Dynamic s1 b = bucket_Dynamic s b"
      by blast
    have dyn1: "\<forall>e \<in> set (ns_buckets (the_namespace s1 ns)).
        bucket_Dynamic s1 (snd e) \<and> snd e < bucket_next s1"
      using s1(4-7) Cons.prems(6) by auto
    have absent1: "set names \<inter> fst ` set (ns_buckets (the_namespace s1 ns)) = {}"
      using rest_absent fresh s1(4) by auto
    from Cons.IH [of s1, OF distinct_rest _ _ _ _ dyn1 absent1]
    obtain rs s' where rest: "FindBuckets namespace names s1 = Some (rs, s')"
      "length rs = length names"
      "bucket_next s1 \<le> bucket_next s'"
      "\<forall>b < bucket_next s1. bucket_Dynamic s' b = bucket_Dynamic s1 b"
      "\<forall>i < length names.
         if M \<le> 0 \<or> int (length (ns_buckets (the_namespace s1 ns)) + i) < M
         then \<exists>b. rs ! i = Some b \<and> b < bucket_next s' \<and> bucket_Dynamic s' b
         else rs ! i = None"
      using Cons.prems(2-5) s1(2,3) by auto
    have run: "FindBuckets namespace (name # names) s = Some (Some (bucket_next s) # rs, s')"
      using s1(1) rest(1) by simp
    have frame: "\<forall>b < bucket_next s. bucket_Dynamic s' b = bucket_Dynamic s b"
      using rest(4) s1(5,7) by auto
    have first: "bucket_next s < bucket_next s' \<and> bucket_Dynamic s' (bucket_next s)"
      using rest(3,4) s1(5,6) by auto
    have results: "if M \<le> 0 \<or> int (?L + i) < M
         then \<exists>b. (Some (bucket_next s) # rs) ! i = Some b \<and> b < bucket_next s'
                \<and> bucket_Dynamic s' b
         else (Some (bucket_next s) # rs) ! i = None"
      if "i < length (name # names)" for i
    proof (cases i)
      case 0
      with True first show ?thesis by simp
    next
      case (Suc j)
      with that rest(5) s1(4) show ?thesis by (auto split: if_splits)
    qed
    show ?thesis
      using run rest(2,3) s1(5) frame results by (intro exI conjI) auto
  next
    case False
    then have cap: "0 < MaxDynamicBuckets (ns_cfg ?N)"
      "MaxDynamicBuckets (ns_cfg ?N) \<le> int ?L"
      using Cons.prems(5) by auto
    from FindBucket_at_cap [OF Cons.prems(2) Cons.prems(3) Cons.prems(4) Cons.prems(6)
        absent cap]
    obtain s1 where s1: "FindBucket namespace name s = Some (None, s1)"
      "bc_namespaces s1 = bc_namespaces s"
      "the_namespace s1 = the_namespace s"
      "bucket_next s1 = bucket_next s"
      "the_bucket s1 = the_bucket s"
      by blast
    have same: "bucket_Dynamic s1 = bucket_Dynamic s"
      using s1(5) by (simp add: bucket_Dynamic_def fun_eq_iff)
    have dyn1: "\<forall>e \<in> set (ns_buckets (the_namespace s1 ns)).
        bucket_Dynamic s1 (snd e) \<and> snd e < bucket_next s1"
      using Cons.prems(6) s1(3,4) same by simp
    have absent1: "set names \<inter> fst ` set (ns_buckets (the_namespace s1 ns)) = {}"
      using rest_absent s1(3) by simp
    from Cons.IH [of s1, OF distinct_rest _ _ _ _ dyn1 absent1]
    obtain rs s' where rest: "FindBuckets namespace names s1 = Some (rs, s')"
      "length rs = length names"
      "bucket_next s1 \<le> bucket_next s'"
      "\<forall>b < bucket_next s1. bucket_Dynamic s' b = bucket_Dynamic s1 b"
      "\<forall>i < length names.
         if M \<le> 0 \<or> int (length (ns_buckets (the_namespace s1 ns)) + i) < M
         then \<exists>b. rs ! i = Some b \<and> b < bucket_next s' \<and> bucket_Dynamic s' b
         else rs ! i = None"
      using Cons.prems(2-5) s1(2,3) by auto
    have run: "FindBuckets namespace (name # names) s = Some (None # rs, s')"
      using s1(1) rest(1) by simp
    have frame: "\<forall>b < bucket_next s. bucket_Dynamic s' b = bucket_Dynamic s b"
      using rest(4) s1(4) same by auto
    have results: "if M \<le> 0 \<or> int (?L + i) < M
         then \<exists>b. (None # rs) ! i = Some b \<and> b < bucket_next s' \<and> bucket_Dynamic s' b
         else (None # rs) ! i = None"
      if "i < length (name # names)" for i
    proof (cases i)
      case 0
      with False show ?thesis by simp
    next
      case (Suc j)
      with that rest(5) s1(3) False show ?thesis by (auto split: if_splits)
    qed
    show ?thesis
      using run rest(2,3) s1(4) frame results by (intro exI conjI) auto
  qed
qed

text \<open>
  C4. In a namespace with a template, no configured named buckets and an empty map, a
  run of Find calls for distinct names, with nothing else happening in between, returns:
  for the call number \<open>i\<close> (counted from 0) a bucket whose \<open>Dynamic()\<close> is true when
  \<open>MaxDynamicBuckets \<le> 0\<close> or \<open>i < MaxDynamicBuckets\<close>, and nil otherwise. So with
  \<open>MaxDynamicBuckets = M > 0\<close> the first \<open>M\<close> calls return dynamic buckets and call
  \<open>M + 1\<close> returns nil, and with \<open>MaxDynamicBuckets \<le> 0\<close> every call returns a dynamic
  bucket.
\<close>

theorem dynamic_cap:
  assumes "bc_namespaces s namespace = Some ns"
    and "ns_buckets (the_namespace s ns) = []"
    and "Buckets (ns_cfg (the_namespace s ns)) = []"
    and "DynamicBucketTemplate (ns_cfg (the_namespace s ns)) = Some t"
    and "distinct names"
  shows "\<exists>rs s'. FindBuckets namespace names s = Some (rs, s')
      \<and> length rs = length names
      \<and> (\<forall>i < length names.
            if MaxDynamicBuckets (ns_cfg (the_namespace s ns)) \<le> 0
               \<or> int i < MaxDynamicBuckets (ns_cfg (the_namespace s ns))
            then \<exists>b. rs ! i = Some b \<and> bucket_Dynamic s' b
            else rs ! i = None)"
proof -
  from FindBuckets_dynamic [of names s namespace ns t
      "MaxDynamicBuckets (ns_cfg (the_namespace s ns))"] assms
  obtain rs s' where r: "FindBuckets namespace names s = Some (rs, s')"
    "length rs = length names"
    "\<forall>i < length names.
       if MaxDynamicBuckets (ns_cfg (the_namespace s ns)) \<le> 0
          \<or> int (length (ns_buckets (the_namespace s ns)) + i)
               < MaxDynamicBuckets (ns_cfg (the_namespace s ns))
       then \<exists>b. rs ! i = Some b \<and> b < bucket_next s' \<and> bucket_Dynamic s' b
       else rs ! i = None"
    by auto
  from r(3) assms(2) have "\<forall>i < length names.
       if MaxDynamicBuckets (ns_cfg (the_namespace s ns)) \<le> 0
          \<or> int i < MaxDynamicBuckets (ns_cfg (the_namespace s ns))
       then \<exists>b. rs ! i = Some b \<and> bucket_Dynamic s' b
       else rs ! i = None"
    by (auto split: if_splits)
  with r(1,2) show ?thesis by blast
qed

lemma dynamic_container_fields:
  "bc_namespaces dynamic_container = [''ns_d'' \<mapsto> 0]"
  "the_namespace dynamic_container 0 =
     \<lparr>ns_cfg = \<lparr>DefaultBucket = None,
          DynamicBucketTemplate = Some \<lparr>Rate = 5, Capacity = 5, MaxIdleMillis = 0\<rparr>,
          MaxDynamicBuckets = 2, Buckets = []\<rparr>,
      ns_buckets = [], ns_defaultBucket = None\<rparr>"
  by (simp_all add: dynamic_container_def dynamic_cfg_def NewBucketContainer_def
      empty_system_def new_namespace_def Let_def the_namespace_def)

theorem dynamic_cap_witness:
  "bc_namespaces dynamic_container ''ns_d'' = Some 0
   \<and> ns_buckets (the_namespace dynamic_container 0) = []
   \<and> Buckets (ns_cfg (the_namespace dynamic_container 0)) = []
   \<and> DynamicBucketTemplate (ns_cfg (the_namespace dynamic_container 0))
       = Some \<lparr>Rate = 5, Capacity = 5, MaxIdleMillis = 0\<rparr>
   \<and> MaxDynamicBuckets (ns_cfg (the_namespace dynamic_container 0)) = 2
   \<and> distinct [''a'', ''b'', ''c'']
   \<and> (\<exists>rs s'. FindBuckets ''ns_d'' [''a'', ''b'', ''c''] dynamic_container = Some (rs, s')
        \<and> length rs = 3
        \<and> (\<exists>b. rs ! 0 = Some b \<and> bucket_Dynamic s' b)
        \<and> (\<exists>b. rs ! 1 = Some b \<and> bucket_Dynamic s' b)
        \<and> rs ! 2 = None)"
proof -
  from dynamic_cap [of dynamic_container "''ns_d''" 0
      "\<lparr>Rate = 5, Capacity = 5, MaxIdleMillis = 0\<rparr>" "[''a'', ''b'', ''c'']"]
  obtain rs s' where r:
    "FindBuckets ''ns_d'' [''a'', ''b'', ''c''] dynamic_container = Some (rs, s')"
    "length rs = 3"
    "\<forall>i < 3. if int i < 2 then \<exists>b. rs ! i = Some b \<and> bucket_Dynamic s' b
              else rs ! i = None"
    by (auto simp: dynamic_container_fields)
  from r(3) have "\<exists>b. rs ! 0 = Some b \<and> bucket_Dynamic s' b"
    "\<exists>b. rs ! 1 = Some b \<and> bucket_Dynamic s' b" "rs ! 2 = None"
    by (auto dest: spec [of _ 0] spec [of _ 1] spec [of _ 2])
  with r(1,2) show ?thesis
    by (simp add: dynamic_container_fields)
qed


section \<open>The invariant of the container\<close>

lemma named_bucket_frame:
  "namespace_next s' = namespace_next s \<Longrightarrow> the_namespace s' = the_namespace s \<Longrightarrow>
   named_bucket s' = named_bucket s"
  by (simp add: named_bucket_def fun_eq_iff)

lemma default_bucket_frame:
  assumes "namespace_next s' = namespace_next s"
    and "bc_defaultBucket s' = bc_defaultBucket s"
    and "\<And>ns. ns_defaultBucket (the_namespace s' ns) = ns_defaultBucket (the_namespace s ns)"
  shows "default_bucket s' = default_bucket s"
  using assms by (simp add: default_bucket_def fun_eq_iff)

lemma frames [simp]:
  "named_bucket (emit e s) = named_bucket s"
  "default_bucket (emit e s) = default_bucket s"
  "named_bucket (fold emit es s) = named_bucket s"
  "default_bucket (fold emit es s) = default_bucket s"
  "named_bucket (bucket_ReportActivity b s) = named_bucket s"
  "default_bucket (bucket_ReportActivity b s) = default_bucket s"
  "named_bucket (snd (bucket_ActivityDetected b s)) = named_bucket s"
  "default_bucket (snd (bucket_ActivityDetected b s)) = default_bucket s"
  "named_bucket (snd (NewBucket namespace name c dyn s)) = named_bucket s"
  "default_bucket (snd (NewBucket namespace name c dyn s)) = default_bucket s"
  by (rule named_bucket_frame default_bucket_frame; simp)+

lemma named_bucket_create:
  "ns < namespace_next s \<Longrightarrow>
   named_bucket (snd (createNewNamedBucketFromCfg namespace name ns c dyn s)) ns' name' b \<longleftrightarrow>
     (if ns' = ns \<and> name' = name then b = bucket_next s else named_bucket s ns' name' b)"
  by (auto simp: named_bucket_def update_conv')

lemma default_bucket_create [simp]:
  "default_bucket (snd (createNewNamedBucketFromCfg namespace name ns c dyn s)) =
   default_bucket s"
  by (rule default_bucket_frame) simp_all

lemma named_bucket_remove:
  "named_bucket (watch_remove w s) ns name b \<longleftrightarrow>
     named_bucket s ns name b \<and> \<not> (ns = watch_ns w \<and> name = watch_bucketName w)"
  by (auto simp: named_bucket_def delete_conv')

lemma default_bucket_remove [simp]: "default_bucket (watch_remove w s) = default_bucket s"
  by (rule default_bucket_frame) simp_all

lemma consistent_frame:
  assumes "consistent s"
    and "named_bucket s' = named_bucket s" and "default_bucket s' = default_bucket s"
    and "bucket_next s' = bucket_next s" and "namespace_next s' = namespace_next s"
    and "watchers s' = watchers s" and "bc_namespaces s' = bc_namespaces s"
    and "{b. EvDestroy b \<in> set (trace s')} = {b. EvDestroy b \<in> set (trace s)}"
    and "\<And>b. count_list (trace s') (EvDestroy b) = count_list (trace s) (EvDestroy b)"
    and "\<And>b. bucket_dyn (the_bucket s' b) = bucket_dyn (the_bucket s b)"
    and "\<And>b. bucket_name (the_bucket s' b) = bucket_name (the_bucket s b)"
    and "\<And>b. bucket_cfg (the_bucket s' b) = bucket_cfg (the_bucket s b)"
  shows "consistent s'"
proof -
  have mem: "EvDestroy b \<in> set (trace s') \<longleftrightarrow> EvDestroy b \<in> set (trace s)" for b
    using assms(8) by blast
  have "consistent s' = consistent s"
    unfolding consistent_def by (simp only: assms(2-7) assms(9-12) mem)
  with assms(1) show ?thesis by simp
qed

lemma consistent_emit:
  assumes "consistent s" and "\<And>b. e \<noteq> EvDestroy b"
  shows "consistent (emit e s)"
  using assms(1)
proof (rule consistent_frame)
  show "{b. EvDestroy b \<in> set (trace (emit e s))} = {b. EvDestroy b \<in> set (trace s)}"
    using assms(2) by auto
  show "count_list (trace (emit e s)) (EvDestroy b) = count_list (trace s) (EvDestroy b)" for b
    using assms(2) [of b] by simp
qed simp_all

lemma consistent_fold_emit:
  assumes "consistent s" and "\<And>b. EvDestroy b \<notin> set es"
  shows "consistent (fold emit es s)"
  using assms(1)
proof (rule consistent_frame)
  show "{b. EvDestroy b \<in> set (trace (fold emit es s))} = {b. EvDestroy b \<in> set (trace s)}"
    using assms(2) by auto
  show "count_list (trace (fold emit es s)) (EvDestroy b) = count_list (trace s) (EvDestroy b)"
    for b
    using assms(2) [of b] by (simp add: count_list_0_iff)
qed simp_all

lemma consistent_ReportActivity: "consistent s \<Longrightarrow> consistent (bucket_ReportActivity b s)"
  by (erule consistent_frame) simp_all

lemma consistent_ActivityDetected:
  "consistent s \<Longrightarrow> consistent (snd (bucket_ActivityDetected b s))"
  by (erule consistent_frame) simp_all

lemma consistentI:
  assumes "\<And>ns name b. named_bucket s ns name b \<Longrightarrow>
        b < bucket_next s \<and> \<not> default_bucket s b \<and> EvDestroy b \<notin> set (trace s)"
    and "\<And>ns name ns' name' b. named_bucket s ns name b \<Longrightarrow> named_bucket s ns' name' b \<Longrightarrow>
          ns = ns' \<and> name = name'"
    and "\<And>d. default_bucket s d \<Longrightarrow>
          d < bucket_next s \<and> EvDestroy d \<notin> set (trace s)
          \<and> \<not> bucket_dyn (the_bucket s d)
          \<and> bucket_name (the_bucket s d) = DEFAULT_BUCKET_NAME"
    and "\<And>w. w \<in> set (watchers s) \<Longrightarrow>
          named_bucket s (watch_ns w) (watch_bucketName w) (watch_bucket w)
          \<and> watch_freq w \<noteq> 0
          \<and> watch_freq w =
              MaxIdleMillis (bucket_cfg (the_bucket s (watch_bucket w))) * Millisecond"
    and "distinct (map watch_bucket (watchers s))"
    and "\<And>b. b < bucket_next s \<Longrightarrow>
          (\<exists>ns name. named_bucket s ns name b) \<or> default_bucket s b
          \<or> count_list (trace s) (EvDestroy b) = 1"
    and "\<And>b. EvDestroy b \<in> set (trace s) \<Longrightarrow> b < bucket_next s"
    and "\<And>name ns. bc_namespaces s name = Some ns \<Longrightarrow> ns < namespace_next s"
  shows "consistent s"
  unfolding consistent_def using assms by blast

lemma consistent_named:
  "consistent s \<Longrightarrow> named_bucket s ns name b \<Longrightarrow>
   b < bucket_next s \<and> \<not> default_bucket s b \<and> EvDestroy b \<notin> set (trace s)"
  unfolding consistent_def by blast

lemma consistent_inj:
  "consistent s \<Longrightarrow> named_bucket s ns name b \<Longrightarrow> named_bucket s ns' name' b \<Longrightarrow>
   ns = ns' \<and> name = name'"
  unfolding consistent_def by blast

lemma consistent_default:
  "consistent s \<Longrightarrow> default_bucket s d \<Longrightarrow>
   d < bucket_next s \<and> EvDestroy d \<notin> set (trace s) \<and> \<not> bucket_dyn (the_bucket s d)
   \<and> bucket_name (the_bucket s d) = DEFAULT_BUCKET_NAME"
  unfolding consistent_def by blast

lemma consistent_watcher:
  "consistent s \<Longrightarrow> w \<in> set (watchers s) \<Longrightarrow>
   named_bucket s (watch_ns w) (watch_bucketName w) (watch_bucket w)
   \<and> watch_freq w \<noteq> 0
   \<and> watch_freq w = MaxIdleMillis (bucket_cfg (the_bucket s (watch_bucket w))) * Millisecond"
  unfolding consistent_def by blast

lemma consistent_distinct: "consistent s \<Longrightarrow> distinct (map watch_bucket (watchers s))"
  unfolding consistent_def by blast

lemma consistent_accounted:
  "consistent s \<Longrightarrow> b < bucket_next s \<Longrightarrow>
   (\<exists>ns name. named_bucket s ns name b) \<or> default_bucket s b
   \<or> count_list (trace s) (EvDestroy b) = 1"
  unfolding consistent_def by blast

lemma consistent_destroyed:
  "consistent s \<Longrightarrow> EvDestroy b \<in> set (trace s) \<Longrightarrow> b < bucket_next s"
  unfolding consistent_def by blast

lemma consistent_namespaces:
  "consistent s \<Longrightarrow> bc_namespaces s name = Some ns \<Longrightarrow> ns < namespace_next s"
  unfolding consistent_def by blast


lemma consistent_create:
  assumes c: "consistent s" and ns: "ns < namespace_next s"
    and absent: "map_of (ns_buckets (the_namespace s ns)) name = None"
  shows "consistent (snd (createNewNamedBucketFromCfg namespace name ns cfg dyn s))"
    (is "consistent ?s'")
proof (rule consistentI)
  note nb = named_bucket_create [OF ns, of namespace name cfg dyn]
  have absent': "\<not> named_bucket s ns name b" for b
    using absent by (simp add: named_bucket_def)
  have fresh: "EvDestroy (bucket_next s) \<notin> set (trace s)"
    using consistent_destroyed [OF c, of "bucket_next s"] by auto
  have old_lt: "b < bucket_next s" if "named_bucket s ns' name' b" for ns' name' b
    using consistent_named [OF c that] by simp
  have def_lt: "d < bucket_next s" if "default_bucket s d" for d
    using consistent_default [OF c that] by simp
  show "b < bucket_next ?s' \<and> \<not> default_bucket ?s' b \<and> EvDestroy b \<notin> set (trace ?s')"
    if "named_bucket ?s' ns' name' b" for ns' name' b
  proof (cases "ns' = ns \<and> name' = name")
    case True
    with that have "b = bucket_next s" by (simp add: nb)
    with fresh def_lt [of "bucket_next s"] show ?thesis by auto
  next
    case False
    with that have "named_bucket s ns' name' b" by (simp add: nb)
    from consistent_named [OF c this] show ?thesis by auto
  qed
  show "ns1 = ns2 \<and> name1 = name2"
    if "named_bucket ?s' ns1 name1 b" "named_bucket ?s' ns2 name2 b" for ns1 name1 ns2 name2 b
    using that old_lt [of ns1 name1 b] old_lt [of ns2 name2 b]
      consistent_inj [OF c, of ns1 name1 b ns2 name2]
    by (auto simp: nb split: if_splits)
  show "d < bucket_next ?s' \<and> EvDestroy d \<notin> set (trace ?s')
        \<and> \<not> bucket_dyn (the_bucket ?s' d)
        \<and> bucket_name (the_bucket ?s' d) = DEFAULT_BUCKET_NAME"
    if "default_bucket ?s' d" for d
    using that consistent_default [OF c, of d] by auto
  show "named_bucket ?s' (watch_ns w) (watch_bucketName w) (watch_bucket w)
        \<and> watch_freq w \<noteq> 0
        \<and> watch_freq w =
            MaxIdleMillis (bucket_cfg (the_bucket ?s' (watch_bucket w))) * Millisecond"
    if "w \<in> set (watchers ?s')" for w
  proof (cases "w \<in> set (watchers s)")
    case True
    from consistent_watcher [OF c True] old_lt [of "watch_ns w" "watch_bucketName w"
        "watch_bucket w"] absent' [of "watch_bucket w"]
    show ?thesis by (auto simp: nb)
  next
    case False
    with that show ?thesis by (auto simp: nb split: if_splits)
  qed
  have "watch_bucket w < bucket_next s" if "w \<in> set (watchers s)" for w
    using consistent_watcher [OF c that] old_lt by blast
  then have "bucket_next s \<notin> watch_bucket ` set (watchers s)"
    by (metis imageE less_irrefl)
  then show "distinct (map watch_bucket (watchers ?s'))"
    using consistent_distinct [OF c] by simp
  show "(\<exists>ns name. named_bucket ?s' ns name b) \<or> default_bucket ?s' b
        \<or> count_list (trace ?s') (EvDestroy b) = 1"
    if "b < bucket_next ?s'" for b
  proof (cases "b = bucket_next s")
    case True
    then have "named_bucket ?s' ns name b" by (simp add: nb)
    then show ?thesis by blast
  next
    case False
    with that have "b < bucket_next s" by simp
    from consistent_accounted [OF c this] absent' show ?thesis
      by (auto simp: nb) metis
  qed
  show "b < bucket_next ?s'" if "EvDestroy b \<in> set (trace ?s')" for b
    using that consistent_destroyed [OF c, of b] by auto
  show "ns' < namespace_next ?s'" if "bc_namespaces ?s' name' = Some ns'" for name' ns'
    using that consistent_namespaces [OF c, of name' ns'] by simp
qed


lemma distinct_map_eq:
  "distinct (map f xs) \<Longrightarrow> x \<in> set xs \<Longrightarrow> y \<in> set xs \<Longrightarrow> f x = f y \<Longrightarrow> x = y"
  by (auto simp: distinct_map dest: inj_onD)

lemma distinct_map_remove1: "distinct (map f xs) \<Longrightarrow> distinct (map f (remove1 x xs))"
  by (induction xs) (auto simp: image_iff dest: notin_set_remove1)

lemma consistent_remove:
  assumes c: "consistent s" and w: "w \<in> set (watchers s)"
  shows "consistent (watch_remove w s)" (is "consistent ?s'")
proof (rule consistentI)
  note nb = named_bucket_remove
  have named_w: "named_bucket s (watch_ns w) (watch_bucketName w) (watch_bucket w)"
    using consistent_watcher [OF c w] by simp
  have other: "b \<noteq> watch_bucket w"
    if "named_bucket ?s' ns name b" for ns name b
    using that consistent_inj [OF c named_w, of ns name] by (auto simp: nb)
  have not_default: "\<not> default_bucket s (watch_bucket w)"
    using consistent_named [OF c named_w] by simp
  have dist: "distinct (watchers s)"
    using consistent_distinct [OF c] by (simp add: distinct_map)
  show "b < bucket_next ?s' \<and> \<not> default_bucket ?s' b \<and> EvDestroy b \<notin> set (trace ?s')"
    if "named_bucket ?s' ns name b" for ns name b
  proof -
    from that have "named_bucket s ns name b" by (simp add: nb)
    from consistent_named [OF c this] other [OF that] show ?thesis by simp
  qed
  show "ns1 = ns2 \<and> name1 = name2"
    if "named_bucket ?s' ns1 name1 b" "named_bucket ?s' ns2 name2 b" for ns1 name1 ns2 name2 b
    using that consistent_inj [OF c, of ns1 name1 b ns2 name2] by (simp add: nb)
  show "d < bucket_next ?s' \<and> EvDestroy d \<notin> set (trace ?s')
        \<and> \<not> bucket_dyn (the_bucket ?s' d)
        \<and> bucket_name (the_bucket ?s' d) = DEFAULT_BUCKET_NAME"
    if "default_bucket ?s' d" for d
    using that consistent_default [OF c, of d] not_default by auto
  show "named_bucket ?s' (watch_ns w') (watch_bucketName w') (watch_bucket w')
        \<and> watch_freq w' \<noteq> 0
        \<and> watch_freq w' =
            MaxIdleMillis (bucket_cfg (the_bucket ?s' (watch_bucket w'))) * Millisecond"
    if "w' \<in> set (watchers ?s')" for w'
  proof -
    from that dist have w': "w' \<in> set (watchers s)" and ne: "w' \<noteq> w"
      by auto
    have nw': "named_bucket s (watch_ns w') (watch_bucketName w') (watch_bucket w')"
      using consistent_watcher [OF c w'] by simp
    have "\<not> (watch_ns w' = watch_ns w \<and> watch_bucketName w' = watch_bucketName w)"
    proof
      assume same: "watch_ns w' = watch_ns w \<and> watch_bucketName w' = watch_bucketName w"
      with nw' named_w have "watch_bucket w' = watch_bucket w"
        by (simp add: named_bucket_def)
      with consistent_distinct [OF c] w' w have "w' = w"
        by (rule distinct_map_eq)
      with ne show False by simp
    qed
    moreover from consistent_watcher [OF c w'] have "watch_freq w' \<noteq> 0"
      and "watch_freq w' =
        MaxIdleMillis (bucket_cfg (the_bucket s (watch_bucket w'))) * Millisecond"
      by blast+
    ultimately show ?thesis using nw' by (simp add: nb)
  qed
  show "distinct (map watch_bucket (watchers ?s'))"
    using consistent_distinct [OF c] by (simp add: distinct_map_remove1)
  show "(\<exists>ns name. named_bucket ?s' ns name b) \<or> default_bucket ?s' b
        \<or> count_list (trace ?s') (EvDestroy b) = 1"
    if "b < bucket_next ?s'" for b
  proof (cases "b = watch_bucket w")
    case True
    have "count_list (trace s) (EvDestroy (watch_bucket w)) = 0"
      using consistent_named [OF c named_w] by (simp add: count_list_0_iff)
    with True show ?thesis by simp
  next
    case False
    from that have "b < bucket_next s" by simp
    from consistent_accounted [OF c this]
    consider ns name where "named_bucket s ns name b" | "default_bucket s b"
      | "count_list (trace s) (EvDestroy b) = 1"
      by blast
    then show ?thesis
    proof cases
      case 1
      with named_w False have "\<not> (ns = watch_ns w \<and> name = watch_bucketName w)"
        by (auto simp: named_bucket_def)
      with 1 have "named_bucket ?s' ns name b" by (simp add: nb)
      then show ?thesis by blast
    next
      case 2
      then show ?thesis by simp
    next
      case 3
      with False show ?thesis by simp
    qed
  qed
  show "b < bucket_next ?s'" if "EvDestroy b \<in> set (trace ?s')" for b
    using that consistent_destroyed [OF c, of b] consistent_named [OF c named_w] by auto
  show "ns < namespace_next ?s'" if "bc_namespaces ?s' name = Some ns" for name ns
    using that consistent_namespaces [OF c, of name ns] by simp
qed

lemma consistent_watch_tick:
  "consistent s \<Longrightarrow> w \<in> set (watchers s) \<Longrightarrow> consistent (watch_tick w s)"
  by (cases "bucket_activity (the_bucket s (watch_bucket w)) = []")
     (simp_all add: watch_tick_idle watch_tick_active consistent_remove
        consistent_ActivityDetected)

lemma consistent_FindBucket:
  assumes "consistent s" and "FindBucket namespace name s = Some (r, s')"
  shows "consistent s'"
proof (cases rule: FindBucket_cases [of s namespace name])
  case unconfigured
  with assms show ?thesis
    by (cases "bc_defaultBucket s")
       (auto simp: FindBucket_return_Some FindBucket_return_None consistent_ReportActivity)
next
  case (present ns b)
  with assms show ?thesis
    by (auto simp: FindBucket_return_Some intro!: consistent_ReportActivity consistent_emit)
next
  case (default ns)
  with assms show ?thesis
    by (cases "ns_defaultBucket (the_namespace s ns)")
       (auto simp: FindBucket_return_Some FindBucket_return_None
          intro!: consistent_ReportActivity consistent_emit)
next
  case (cap ns t)
  with assms show ?thesis
    by (auto intro!: consistent_emit)
next
  case (created ns t c dyn)
  have "ns < namespace_next s"
    using assms(1) created(1) by (rule consistent_namespaces)
  with assms created show ?thesis
    by (auto intro!: consistent_emit consistent_ReportActivity consistent_create)
qed

lemma consistent_step:
  assumes "consistent s" and "step a s = Some s'"
  shows "consistent s'"
proof (cases a)
  case (Find namespace name)
  with assms show ?thesis by (auto dest: consistent_FindBucket)
next
  case (Tick i)
  with assms show ?thesis by (auto intro: consistent_watch_tick split: if_splits)
next
  case (Touch b)
  with assms show ?thesis by (auto intro: consistent_ReportActivity split: if_splits)
qed

lemma consistent_run:
  "consistent s \<Longrightarrow> run acts s = Some s' \<Longrightarrow> consistent s'"
proof (induction acts arbitrary: s)
  case Nil
  then show ?case by simp
next
  case (Cons a acts)
  then show ?case by (auto split: option.splits dest: consistent_step)
qed


lemma new_namespace_fields [simp]:
  "fst (new_namespace nsCfg s) = namespace_next s"
  "bc_cfg (snd (new_namespace nsCfg s)) = bc_cfg s"
  "bc_namespaces (snd (new_namespace nsCfg s)) = bc_namespaces s"
  "bc_defaultBucket (snd (new_namespace nsCfg s)) = bc_defaultBucket s"
  "bucket_next (snd (new_namespace nsCfg s)) = bucket_next s"
  "namespace_next (snd (new_namespace nsCfg s)) = Suc (namespace_next s)"
  "watchers (snd (new_namespace nsCfg s)) = watchers s"
  "trace (snd (new_namespace nsCfg s)) = trace s"
  "the_bucket (snd (new_namespace nsCfg s)) = the_bucket s"
  "the_namespace (snd (new_namespace nsCfg s)) =
     (the_namespace s)(namespace_next s :=
        \<lparr>ns_cfg = nsCfg, ns_buckets = [], ns_defaultBucket = None\<rparr>)"
  by (simp_all add: new_namespace_def Let_def the_bucket_def the_namespace_def fun_eq_iff)

lemma consistent_empty: "consistent (empty_system cfg)"
  by (rule consistentI) (simp_all add: named_bucket_def default_bucket_def empty_system_def)

lemma consistent_global_default:
  assumes c: "consistent s" and none: "bc_defaultBucket s = None"
  shows "consistent ((snd (NewBucket GLOBAL_NAMESPACE DEFAULT_BUCKET_NAME cfg False s))
           \<lparr>bc_defaultBucket := Some (bucket_next s)\<rparr>)" (is "consistent ?s'")
proof (rule consistentI)
  have nb: "named_bucket ?s' = named_bucket s"
    by (rule named_bucket_frame) simp_all
  have db: "default_bucket ?s' d \<longleftrightarrow> default_bucket s d \<or> d = bucket_next s" for d
    using none by (auto simp: default_bucket_def)
  have fresh: "EvDestroy (bucket_next s) \<notin> set (trace s)"
    using consistent_destroyed [OF c, of "bucket_next s"] by auto
  have old_lt: "b < bucket_next s" if "named_bucket s ns' name' b" for ns' name' b
    using consistent_named [OF c that] by simp
  show "b < bucket_next ?s' \<and> \<not> default_bucket ?s' b \<and> EvDestroy b \<notin> set (trace ?s')"
    if "named_bucket ?s' ns name b" for ns name b
    using that consistent_named [OF c, of ns name b] by (auto simp: nb db)
  show "ns1 = ns2 \<and> name1 = name2"
    if "named_bucket ?s' ns1 name1 b" "named_bucket ?s' ns2 name2 b" for ns1 name1 ns2 name2 b
    using that consistent_inj [OF c, of ns1 name1 b ns2 name2] by (simp add: nb)
  show "d < bucket_next ?s' \<and> EvDestroy d \<notin> set (trace ?s')
        \<and> \<not> bucket_dyn (the_bucket ?s' d)
        \<and> bucket_name (the_bucket ?s' d) = DEFAULT_BUCKET_NAME"
    if "default_bucket ?s' d" for d
    using that consistent_default [OF c, of d] fresh by (auto simp: db)
  show "named_bucket ?s' (watch_ns w) (watch_bucketName w) (watch_bucket w)
        \<and> watch_freq w \<noteq> 0
        \<and> watch_freq w =
            MaxIdleMillis (bucket_cfg (the_bucket ?s' (watch_bucket w))) * Millisecond"
    if "w \<in> set (watchers ?s')" for w
  proof -
    from that have w: "w \<in> set (watchers s)" by simp
    from consistent_watcher [OF c w]
      old_lt [of "watch_ns w" "watch_bucketName w" "watch_bucket w"]
    show ?thesis by (auto simp: nb)
  qed
  show "distinct (map watch_bucket (watchers ?s'))"
    using consistent_distinct [OF c] by simp
  show "(\<exists>ns name. named_bucket ?s' ns name b) \<or> default_bucket ?s' b
        \<or> count_list (trace ?s') (EvDestroy b) = 1"
    if "b < bucket_next ?s'" for b
  proof (cases "b = bucket_next s")
    case True
    then show ?thesis by (simp add: db)
  next
    case False
    with that have "b < bucket_next s" by simp
    from consistent_accounted [OF c this] show ?thesis by (auto simp: nb db)
  qed
  show "b < bucket_next ?s'" if "EvDestroy b \<in> set (trace ?s')" for b
    using that consistent_destroyed [OF c, of b] by auto
  show "ns < namespace_next ?s'" if "bc_namespaces ?s' name = Some ns" for name ns
    using that consistent_namespaces [OF c, of name ns] by simp
qed

lemma consistent_namespace_default:
  assumes c: "consistent s" and ns: "ns < namespace_next s"
    and none: "ns_defaultBucket (the_namespace s ns) = None"
  shows "consistent (update_namespace ns (\<lambda>n. n\<lparr>ns_defaultBucket := Some (bucket_next s)\<rparr>)
           (snd (NewBucket nsName DEFAULT_BUCKET_NAME cfg False s)))" (is "consistent ?s'")
proof (rule consistentI)
  have nb: "named_bucket ?s' = named_bucket s"
    by (auto simp: named_bucket_def fun_eq_iff)
  have tn: "ns_defaultBucket (the_namespace ?s' n) =
      (if n = ns then Some (bucket_next s) else ns_defaultBucket (the_namespace s n))" for n
    by simp
  have db: "default_bucket ?s' d \<longleftrightarrow> default_bucket s d \<or> d = bucket_next s" for d
  proof
    assume "default_bucket ?s' d"
    then have "bc_defaultBucket s = Some d
        \<or> (\<exists>n < namespace_next s. ns_defaultBucket (the_namespace ?s' n) = Some d)"
      unfolding default_bucket_def by simp
    then show "default_bucket s d \<or> d = bucket_next s"
      unfolding default_bucket_def tn by (auto split: if_splits)
  next
    assume "default_bucket s d \<or> d = bucket_next s"
    then consider "bc_defaultBucket s = Some d"
      | n where "n < namespace_next s" "ns_defaultBucket (the_namespace s n) = Some d"
      | "d = bucket_next s"
      unfolding default_bucket_def by blast
    then have "bc_defaultBucket s = Some d
        \<or> (\<exists>n < namespace_next s. ns_defaultBucket (the_namespace ?s' n) = Some d)"
    proof cases
      case 1
      then show ?thesis by simp
    next
      case 2
      with none have "n \<noteq> ns" by auto
      with 2 have "ns_defaultBucket (the_namespace ?s' n) = Some d" by (simp add: tn)
      with 2(1) show ?thesis by blast
    next
      case 3
      then have "ns_defaultBucket (the_namespace ?s' ns) = Some d" by (simp add: tn)
      with ns show ?thesis by blast
    qed
    then show "default_bucket ?s' d"
      unfolding default_bucket_def by simp
  qed
  have fresh: "EvDestroy (bucket_next s) \<notin> set (trace s)"
    using consistent_destroyed [OF c, of "bucket_next s"] by auto
  have old_lt: "b < bucket_next s" if "named_bucket s ns' name' b" for ns' name' b
    using consistent_named [OF c that] by simp
  show "b < bucket_next ?s' \<and> \<not> default_bucket ?s' b \<and> EvDestroy b \<notin> set (trace ?s')"
    if "named_bucket ?s' ns name b" for ns name b
    using that consistent_named [OF c, of ns name b] by (auto simp: nb db)
  show "ns1 = ns2 \<and> name1 = name2"
    if "named_bucket ?s' ns1 name1 b" "named_bucket ?s' ns2 name2 b" for ns1 name1 ns2 name2 b
    using that consistent_inj [OF c, of ns1 name1 b ns2 name2] by (simp add: nb)
  show "d < bucket_next ?s' \<and> EvDestroy d \<notin> set (trace ?s')
        \<and> \<not> bucket_dyn (the_bucket ?s' d)
        \<and> bucket_name (the_bucket ?s' d) = DEFAULT_BUCKET_NAME"
    if "default_bucket ?s' d" for d
    using that consistent_default [OF c, of d] fresh by (auto simp: db)
  show "named_bucket ?s' (watch_ns w) (watch_bucketName w) (watch_bucket w)
        \<and> watch_freq w \<noteq> 0
        \<and> watch_freq w =
            MaxIdleMillis (bucket_cfg (the_bucket ?s' (watch_bucket w))) * Millisecond"
    if "w \<in> set (watchers ?s')" for w
  proof -
    from that have w: "w \<in> set (watchers s)" by simp
    from consistent_watcher [OF c w]
      old_lt [of "watch_ns w" "watch_bucketName w" "watch_bucket w"]
    show ?thesis by (auto simp: nb)
  qed
  show "distinct (map watch_bucket (watchers ?s'))"
    using consistent_distinct [OF c] by simp
  show "(\<exists>ns name. named_bucket ?s' ns name b) \<or> default_bucket ?s' b
        \<or> count_list (trace ?s') (EvDestroy b) = 1"
    if "b < bucket_next ?s'" for b
  proof (cases "b = bucket_next s")
    case True
    then show ?thesis by (simp add: db)
  next
    case False
    with that have "b < bucket_next s" by simp
    from consistent_accounted [OF c this] show ?thesis by (auto simp: nb db)
  qed
  show "b < bucket_next ?s'" if "EvDestroy b \<in> set (trace ?s')" for b
    using that consistent_destroyed [OF c, of b] by auto
  show "ns < namespace_next ?s'" if "bc_namespaces ?s' name = Some ns" for name ns
    using that consistent_namespaces [OF c, of name ns] by simp
qed


lemma named_bucket_new_namespace [simp]:
  "named_bucket (snd (new_namespace nsCfg s)) = named_bucket s"
proof (intro ext)
  fix ns name b
  show "named_bucket (snd (new_namespace nsCfg s)) ns name b = named_bucket s ns name b"
    by (cases "ns = namespace_next s") (auto simp: named_bucket_def)
qed

lemma default_bucket_new_namespace [simp]:
  "default_bucket (snd (new_namespace nsCfg s)) = default_bucket s"
proof (intro ext iffI)
  fix d
  assume "default_bucket (snd (new_namespace nsCfg s)) d"
  then consider "bc_defaultBucket s = Some d"
    | n where "n < Suc (namespace_next s)"
      "ns_defaultBucket (the_namespace (snd (new_namespace nsCfg s)) n) = Some d"
    unfolding default_bucket_def by auto
  then show "default_bucket s d"
  proof cases
    case 1
    then show ?thesis by (simp add: default_bucket_def)
  next
    case 2
    then have "n \<noteq> namespace_next s" by auto
    with 2 have "n < namespace_next s" "ns_defaultBucket (the_namespace s n) = Some d"
      by auto
    then show ?thesis unfolding default_bucket_def by blast
  qed
next
  fix d
  assume "default_bucket s d"
  then consider "bc_defaultBucket s = Some d"
    | n where "n < namespace_next s" "ns_defaultBucket (the_namespace s n) = Some d"
    unfolding default_bucket_def by auto
  then show "default_bucket (snd (new_namespace nsCfg s)) d"
  proof cases
    case 1
    then show ?thesis by (simp add: default_bucket_def)
  next
    case 2
    then have "n < Suc (namespace_next s)"
      "ns_defaultBucket (the_namespace (snd (new_namespace nsCfg s)) n) = Some d"
      by auto
    then show ?thesis unfolding default_bucket_def by (metis new_namespace_fields(6))
  qed
qed

lemma consistent_frame_namespaces:
  assumes c: "consistent s"
    and eqs: "named_bucket s' = named_bucket s" "default_bucket s' = default_bucket s"
      "bucket_next s' = bucket_next s" "watchers s' = watchers s"
      "trace s' = trace s" "the_bucket s' = the_bucket s"
    and ns: "\<And>name ns. bc_namespaces s' name = Some ns \<Longrightarrow> ns < namespace_next s'"
  shows "consistent s'"
proof (rule consistentI)
  show "b < bucket_next s' \<and> \<not> default_bucket s' b \<and> EvDestroy b \<notin> set (trace s')"
    if "named_bucket s' ns name b" for ns name b
    using that unfolding eqs by (rule consistent_named [OF c])
  show "ns1 = ns2 \<and> name1 = name2"
    if "named_bucket s' ns1 name1 b" "named_bucket s' ns2 name2 b" for ns1 name1 ns2 name2 b
    using that unfolding eqs by (rule consistent_inj [OF c])
  show "d < bucket_next s' \<and> EvDestroy d \<notin> set (trace s')
        \<and> \<not> bucket_dyn (the_bucket s' d)
        \<and> bucket_name (the_bucket s' d) = DEFAULT_BUCKET_NAME"
    if "default_bucket s' d" for d
    using that unfolding eqs by (rule consistent_default [OF c])
  show "named_bucket s' (watch_ns w) (watch_bucketName w) (watch_bucket w)
        \<and> watch_freq w \<noteq> 0
        \<and> watch_freq w =
            MaxIdleMillis (bucket_cfg (the_bucket s' (watch_bucket w))) * Millisecond"
    if "w \<in> set (watchers s')" for w
    using that unfolding eqs by (rule consistent_watcher [OF c])
  show "distinct (map watch_bucket (watchers s'))"
    unfolding eqs by (rule consistent_distinct [OF c])
  show "(\<exists>ns name. named_bucket s' ns name b) \<or> default_bucket s' b
        \<or> count_list (trace s') (EvDestroy b) = 1"
    if "b < bucket_next s'" for b
    using that unfolding eqs by (rule consistent_accounted [OF c])
  show "b < bucket_next s'" if "EvDestroy b \<in> set (trace s')" for b
    using that unfolding eqs by (rule consistent_destroyed [OF c])
  show "ns' < namespace_next s'" if "bc_namespaces s' name = Some ns'" for name ns'
    using that by (rule ns)
qed

lemma consistent_new_namespace:
  assumes c: "consistent s"
  shows "consistent (snd (new_namespace nsCfg s))"
  using c
proof (rule consistent_frame_namespaces)
  show "ns < namespace_next (snd (new_namespace nsCfg s))"
    if "bc_namespaces (snd (new_namespace nsCfg s)) name = Some ns" for name ns
    using that consistent_namespaces [OF c, of name ns] by simp
qed simp_all

lemma consistent_register:
  assumes c: "consistent s" and ns: "ns < namespace_next s"
  shows "consistent (s\<lparr>bc_namespaces := (bc_namespaces s)(nsName \<mapsto> ns)\<rparr>)"
    (is "consistent ?s'")
  using c
proof (rule consistent_frame_namespaces)
  show "named_bucket ?s' = named_bucket s"
    by (rule named_bucket_frame) simp_all
  show "default_bucket ?s' = default_bucket s"
    by (rule default_bucket_frame) simp_all
  show "ns' < namespace_next ?s'" if "bc_namespaces ?s' name = Some ns'" for name ns'
    using that ns consistent_namespaces [OF c, of name ns'] by (auto split: if_splits)
qed simp_all

lemma consistent_init_buckets:
  assumes "consistent s" and "nsp < namespace_next s" and "distinct (map fst bs)"
    and "\<forall>k \<in> fst ` set bs. map_of (ns_buckets (the_namespace s nsp)) k = None"
  shows "consistent (init_buckets nsName nsp bs s)"
  using assms
proof (induction bs arbitrary: s)
  case Nil
  then show ?case by simp
next
  case (Cons entry bs)
  obtain bucketName bucketCfg where entry: "entry = (bucketName, bucketCfg)"
    by (cases entry)
  let ?s1 = "snd (createNewNamedBucketFromCfg nsName bucketName nsp bucketCfg False s)"
  have "consistent ?s1"
    using Cons.prems(1,2,4) by (intro consistent_create) (simp_all add: entry)
  moreover have "nsp < namespace_next ?s1"
    using Cons.prems(2) by simp
  moreover have "distinct (map fst bs)"
    using Cons.prems(3) by simp
  moreover have "\<forall>k \<in> fst ` set bs. map_of (ns_buckets (the_namespace ?s1 nsp)) k = None"
    using Cons.prems(3,4) by (auto simp: entry update_conv')
  ultimately have "consistent (init_buckets nsName nsp bs ?s1)"
    by (rule Cons.IH)
  then show ?case by (simp add: entry)
qed


lemma init_buckets_fields [simp]:
  "namespace_next (init_buckets nsName nsp bs s) = namespace_next s"
  "bc_namespaces (init_buckets nsName nsp bs s) = bc_namespaces s"
  "bc_defaultBucket (init_buckets nsName nsp bs s) = bc_defaultBucket s"
  "bc_cfg (init_buckets nsName nsp bs s) = bc_cfg s"
  by (induction bs arbitrary: s; auto)+

lemma consistent_init_namespaces:
  assumes "consistent s"
    and "\<forall>entry \<in> set nss. distinct (map fst (Buckets (snd entry)))"
  shows "consistent (init_namespaces nss s)"
  using assms
proof (induction nss arbitrary: s)
  case Nil
  then show ?case by simp
next
  case (Cons entry nss)
  obtain nsName nsCfg where entry: "entry = (nsName, nsCfg)"
    by (cases entry)
  let ?nsp = "namespace_next s"
  let ?s1 = "snd (new_namespace nsCfg s)"
  let ?s2 = "case DefaultBucket nsCfg of
               None \<Rightarrow> ?s1
             | Some c \<Rightarrow>
                 update_namespace ?nsp (\<lambda>n. n\<lparr>ns_defaultBucket := Some (bucket_next ?s1)\<rparr>)
                   (snd (NewBucket nsName DEFAULT_BUCKET_NAME c False ?s1))"
  let ?s3 = "init_buckets nsName ?nsp (Buckets nsCfg) ?s2"
  let ?s4 = "?s3\<lparr>bc_namespaces := (bc_namespaces ?s3)(nsName \<mapsto> ?nsp)\<rparr>"
  have c1: "consistent ?s1"
    using Cons.prems(1) by (rule consistent_new_namespace)
  have c2: "consistent ?s2"
  proof (cases "DefaultBucket nsCfg")
    case None
    with c1 show ?thesis by simp
  next
    case (Some c)
    have "consistent (update_namespace ?nsp
        (\<lambda>n. n\<lparr>ns_defaultBucket := Some (bucket_next ?s1)\<rparr>)
        (snd (NewBucket nsName DEFAULT_BUCKET_NAME c False ?s1)))"
      using c1 by (rule consistent_namespace_default) simp_all
    with Some show ?thesis by simp
  qed
  have n2: "namespace_next ?s2 = Suc ?nsp"
    by (cases "DefaultBucket nsCfg") simp_all
  have e2: "ns_buckets (the_namespace ?s2 ?nsp) = []"
    by (cases "DefaultBucket nsCfg") simp_all
  have c3: "consistent ?s3"
    using c2 Cons.prems(2) by (intro consistent_init_buckets) (simp_all add: n2 e2 entry)
  have c4: "consistent ?s4"
    using c3 by (rule consistent_register) (simp add: n2)
  have step: "init_namespaces (entry # nss) s = init_namespaces nss ?s4"
    by (cases "DefaultBucket nsCfg") (simp_all add: entry Let_def split_beta)
  have "consistent (init_namespaces nss ?s4)"
    using c4 Cons.prems(2) by (intro Cons.IH) simp_all
  with step show ?case by simp
qed

lemma consistent_NewBucketContainer:
  assumes "config_maps cfg"
  shows "consistent (NewBucketContainer cfg)"
proof -
  let ?bc1 = "case GlobalDefaultBucket cfg of
                None \<Rightarrow> empty_system cfg
              | Some c \<Rightarrow>
                  (snd (NewBucket GLOBAL_NAMESPACE DEFAULT_BUCKET_NAME c False (empty_system cfg)))
                    \<lparr>bc_defaultBucket := Some (bucket_next (empty_system cfg))\<rparr>"
  have "consistent ?bc1"
  proof (cases "GlobalDefaultBucket cfg")
    case None
    then show ?thesis by (simp add: consistent_empty)
  next
    case (Some c)
    have "consistent ((snd (NewBucket GLOBAL_NAMESPACE DEFAULT_BUCKET_NAME c False
        (empty_system cfg)))\<lparr>bc_defaultBucket := Some (bucket_next (empty_system cfg))\<rparr>)"
      by (rule consistent_global_default [OF consistent_empty]) (simp add: empty_system_def)
    with Some show ?thesis by simp
  qed
  then have "consistent (init_namespaces (Namespaces cfg) ?bc1)"
    using assms by (intro consistent_init_namespaces) (simp_all add: config_maps_def)
  moreover have "NewBucketContainer cfg = init_namespaces (Namespaces cfg) ?bc1"
    by (cases "GlobalDefaultBucket cfg")
       (simp_all add: NewBucketContainer_def Let_def split_beta)
  ultimately show ?thesis by simp
qed

lemma reachable_consistent:
  assumes "config_maps cfg" and "run acts (NewBucketContainer cfg) = Some s"
  shows "consistent s"
  using consistent_NewBucketContainer [OF assms(1)] assms(2) by (rule consistent_run)


lemma run_returns: "run acts s \<noteq> None"
proof (induction acts arbitrary: s)
  case Nil
  then show ?case by simp
next
  case (Cons a acts)
  have "step a s \<noteq> None"
    using FindBucket_returns by (cases a) auto
  with Cons show ?case by (auto split: option.splits)
qed

lemma run_append:
  "run (acts @ later) s = (case run acts s of None \<Rightarrow> None | Some s' \<Rightarrow> run later s')"
  by (induction acts arbitrary: s) (auto split: option.splits)

text \<open>A named bucket whose configuration has MaxIdleMillis = 0 survives every step.\<close>

lemma never_idle_step:
  assumes c: "consistent s" and named: "named_bucket s ns name b"
    and zero: "MaxIdleMillis (bucket_cfg (the_bucket s b)) = 0"
    and step: "step a s = Some s'"
  shows "named_bucket s' ns name b \<and> bucket_cfg (the_bucket s' b) = bucket_cfg (the_bucket s b)"
proof (cases a)
  case (Find namespace bucketName)
  then obtain r where find: "FindBucket namespace bucketName s = Some (r, s')"
    using step by auto
  have lt: "b < bucket_next s"
    using consistent_named [OF c named] by simp
  show ?thesis
  proof (cases rule: FindBucket_cases [of s namespace bucketName])
    case unconfigured
    with find named show ?thesis
      by (cases "bc_defaultBucket s")
         (auto simp: FindBucket_return_Some FindBucket_return_None)
  next
    case (present ns0 b0)
    with find named show ?thesis by (auto simp: FindBucket_return_Some)
  next
    case (default ns0)
    with find named show ?thesis
      by (cases "ns_defaultBucket (the_namespace s ns0)")
         (auto simp: FindBucket_return_Some FindBucket_return_None)
  next
    case (cap ns0 t)
    with find named show ?thesis by auto
  next
    case (created ns0 t c0 dyn)
    have ns0: "ns0 < namespace_next s"
      using c created(1) by (rule consistent_namespaces)
    have "\<not> (ns = ns0 \<and> name = bucketName)"
      using named created(2) by (auto simp: named_bucket_def)
    with find created(5) named lt ns0 show ?thesis
      by (auto simp: named_bucket_create)
  qed
next
  case (Tick i)
  show ?thesis
  proof (cases "i < length (watchers s) \<and> 0 <s watch_freq (watchers s ! i)")
    case False
    with Tick step named show ?thesis by auto
  next
    case True
    let ?w = "watchers s ! i"
    have w: "?w \<in> set (watchers s)" using True by simp
    have s': "s' = watch_tick ?w s" using Tick step True by simp
    show ?thesis
    proof (cases "bucket_activity (the_bucket s (watch_bucket ?w)) = []")
      case False
      with s' named show ?thesis by (simp add: watch_tick_active)
    next
      case idle: True
      have "\<not> (ns = watch_ns ?w \<and> name = watch_bucketName ?w)"
      proof
        assume same: "ns = watch_ns ?w \<and> name = watch_bucketName ?w"
        from consistent_watcher [OF c w] same named have "watch_bucket ?w = b"
          by (simp add: named_bucket_def)
        with consistent_watcher [OF c w] zero show False by simp
      qed
      with s' idle named show ?thesis
        by (simp add: watch_tick_idle named_bucket_remove)
    qed
  qed
next
  case (Touch b0)
  with step named show ?thesis by (auto split: if_splits)
qed

lemma never_idle_run:
  assumes "consistent s" and "named_bucket s ns name b"
    and "MaxIdleMillis (bucket_cfg (the_bucket s b)) = 0"
    and "run later s = Some s'"
  shows "named_bucket s' ns name b \<and> EvDestroy b \<notin> set (trace s')"
  using assms
proof (induction later arbitrary: s)
  case Nil
  then show ?case using consistent_named [of s ns name b] by simp
next
  case (Cons a later)
  from Cons.prems(4) obtain s1 where s1: "step a s = Some s1" "run later s1 = Some s'"
    by (auto split: option.splits)
  have "consistent s1"
    using Cons.prems(1) s1(1) by (rule consistent_step)
  moreover from never_idle_step [OF Cons.prems(1-3) s1(1)]
  have "named_bucket s1 ns name b" "MaxIdleMillis (bucket_cfg (the_bucket s1 b)) = 0"
    using Cons.prems(3) by simp_all
  ultimately show ?case using s1(2) by (rule Cons.IH)
qed


section \<open>The watcher's eviction\<close>

text \<open>
  C5, as the code has it. In every state that a container built from a configuration can
  reach: a watcher that sees a tick with no activity on its bucket, which is the bucket
  that its namespace has under its name, takes the namespace's exclusive lock, deletes
  the name from the map, calls Destroy on the bucket while it still holds the lock, and
  releases the lock when it returns; the bucket had not been destroyed before and has
  been destroyed once afterwards, and the watcher is gone. A watcher that sees a tick with
  activity changes neither the trace nor the maps and goes on. Every existing bucket has
  been destroyed never while it is a named or a default bucket, and exactly once
  otherwise. A named bucket whose configuration has MaxIdleMillis = 0 has no watcher, and
  whatever happens later it stays in the map and is not destroyed.
\<close>

theorem watcher_removes_idle_bucket:
  assumes "config_maps cfg" and "run acts (NewBucketContainer cfg) = Some s"
  shows "(\<forall>w \<in> set (watchers s). bucket_activity (the_bucket s (watch_bucket w)) = [] \<longrightarrow>
            named_bucket s (watch_ns w) (watch_bucketName w) (watch_bucket w)
            \<and> trace (watch_tick w s) =
                trace s @ [EvLock (watch_ns w), EvDelete (watch_ns w) (watch_bucketName w),
                           EvDestroy (watch_bucket w), EvUnlock (watch_ns w)]
            \<and> (\<forall>b. \<not> named_bucket (watch_tick w s) (watch_ns w) (watch_bucketName w) b)
            \<and> count_list (trace s) (EvDestroy (watch_bucket w)) = 0
            \<and> count_list (trace (watch_tick w s)) (EvDestroy (watch_bucket w)) = 1
            \<and> w \<notin> set (watchers (watch_tick w s)))
       \<and> (\<forall>w \<in> set (watchers s). bucket_activity (the_bucket s (watch_bucket w)) \<noteq> [] \<longrightarrow>
            trace (watch_tick w s) = trace s
            \<and> named_bucket (watch_tick w s) = named_bucket s
            \<and> watchers (watch_tick w s) = watchers s)
       \<and> (\<forall>b < bucket_next s.
            count_list (trace s) (EvDestroy b) =
              (if (\<exists>ns name. named_bucket s ns name b) \<or> default_bucket s b then 0 else 1))
       \<and> (\<forall>ns name b.
            named_bucket s ns name b \<and> MaxIdleMillis (bucket_cfg (the_bucket s b)) = 0 \<longrightarrow>
              (\<forall>w \<in> set (watchers s). watch_bucket w \<noteq> b)
              \<and> (\<forall>later s'. run later s = Some s' \<longrightarrow>
                    named_bucket s' ns name b \<and> EvDestroy b \<notin> set (trace s')))"
proof (intro conjI ballI allI impI)
  have c: "consistent s"
    using assms by (rule reachable_consistent)
  {
    fix w
    assume w: "w \<in> set (watchers s)"
      and idle: "bucket_activity (the_bucket s (watch_bucket w)) = []"
    have tick: "watch_tick w s =
        watch_remove w (snd (bucket_ActivityDetected (watch_bucket w) s))"
      using idle by (rule watch_tick_idle)
    show named: "named_bucket s (watch_ns w) (watch_bucketName w) (watch_bucket w)"
      using consistent_watcher [OF c w] by simp
    show "trace (watch_tick w s) =
        trace s @ [EvLock (watch_ns w), EvDelete (watch_ns w) (watch_bucketName w),
                   EvDestroy (watch_bucket w), EvUnlock (watch_ns w)]"
      by (simp add: tick)
    show "\<not> named_bucket (watch_tick w s) (watch_ns w) (watch_bucketName w) b" for b
      by (simp add: tick named_bucket_remove)
    show zero: "count_list (trace s) (EvDestroy (watch_bucket w)) = 0"
      using consistent_named [OF c named] by (simp add: count_list_0_iff)
    then show "count_list (trace (watch_tick w s)) (EvDestroy (watch_bucket w)) = 1"
      by (simp add: tick)
    have "distinct (watchers s)"
      using consistent_distinct [OF c] by (simp add: distinct_map)
    then show "w \<notin> set (watchers (watch_tick w s))"
      by (simp add: tick)
  }
  {
    fix w
    assume "w \<in> set (watchers s)"
      and active: "bucket_activity (the_bucket s (watch_bucket w)) \<noteq> []"
    then show "trace (watch_tick w s) = trace s"
      "named_bucket (watch_tick w s) = named_bucket s"
      "watchers (watch_tick w s) = watchers s"
      by (simp_all add: watch_tick_active)
  }
  {
    fix b
    assume b: "b < bucket_next s"
    show "count_list (trace s) (EvDestroy b) =
        (if (\<exists>ns name. named_bucket s ns name b) \<or> default_bucket s b then 0 else 1)"
      using consistent_accounted [OF c b] consistent_named [OF c, of _ _ b]
        consistent_default [OF c, of b]
      by (auto simp: count_list_0_iff)
  }
  {
    fix ns name b
    assume nz: "named_bucket s ns name b \<and> MaxIdleMillis (bucket_cfg (the_bucket s b)) = 0"
    show "watch_bucket w \<noteq> b" if "w \<in> set (watchers s)" for w
      using consistent_watcher [OF c that] nz by auto
    show "named_bucket s' ns name b" "EvDestroy b \<notin> set (trace s')"
      if "run later s = Some s'" for later s'
      using never_idle_run [OF c _ _ that, of ns name b] nz by simp_all
  }
qed


lemma example_cfg_maps: "config_maps example_cfg"
  by (simp add: config_maps_def example_cfg_def)

lemma example_run_quiet:
  "run [Tick 0, Tick 1] example_container = Some example_container_quiet"
  using run_returns [of "[Tick 0, Tick 1]" example_container]
  by (auto simp: example_container_quiet_def)

lemma example_container_quiet_eq:
  "example_container_quiet =
     snd (bucket_ActivityDetected 5 (snd (bucket_ActivityDetected 3 example_container)))"
  by (simp add: example_container_quiet_def example_facts watch_tick_active
      ActivityDetected_def word_sless_alt)

lemma example_container_quiet_fields:
  "watchers example_container_quiet = watchers example_container"
  "trace example_container_quiet = trace example_container"
  "named_bucket example_container_quiet = named_bucket example_container"
  "bucket_activity (the_bucket example_container_quiet 3) = []"
  "bucket_activity (the_bucket example_container_quiet 5) = []"
  "bucket_cfg (the_bucket example_container_quiet 2) =
     \<lparr>Rate = 100, Capacity = 100, MaxIdleMillis = 0\<rparr>"
  by (simp_all add: example_container_quiet_eq example_facts ActivityDetected_def)

lemma example_run_quiet_idle:
  "run [Tick 0, Tick 0] example_container_quiet = Some example_container_idle"
  using example_run_idle run_append [of "[Tick 0, Tick 1]" "[Tick 0, Tick 0]" example_container]
  by (simp only: append.simps example_run_quiet option.case)

theorem watcher_removes_idle_bucket_witness:
  "config_maps example_cfg
   \<and> run [Tick 0, Tick 1] (NewBucketContainer example_cfg) = Some example_container_quiet
   \<and> example_watcher_b2 \<in> set (watchers example_container_quiet)
   \<and> bucket_activity (the_bucket example_container_quiet 3) = []
   \<and> named_bucket example_container_quiet 0 ''b2'' 3
   \<and> trace (watch_tick example_watcher_b2 example_container_quiet) =
       trace example_container_quiet @ [EvLock 0, EvDelete 0 ''b2'', EvDestroy 3, EvUnlock 0]
   \<and> count_list (trace example_container_quiet) (EvDestroy 3) = 0
   \<and> count_list (trace (watch_tick example_watcher_b2 example_container_quiet))
         (EvDestroy 3) = 1
   \<and> example_watcher_b2 \<notin> set (watchers (watch_tick example_watcher_b2
         example_container_quiet))
   \<and> run [] (NewBucketContainer example_cfg) = Some example_container
   \<and> example_watcher_b2 \<in> set (watchers example_container)
   \<and> bucket_activity (the_bucket example_container 3) \<noteq> []
   \<and> trace (watch_tick example_watcher_b2 example_container) = trace example_container
   \<and> watchers (watch_tick example_watcher_b2 example_container) = watchers example_container
   \<and> named_bucket example_container_quiet 0 ''b1'' 2
   \<and> MaxIdleMillis (bucket_cfg (the_bucket example_container_quiet 2)) = 0
   \<and> run [Tick 0, Tick 0] example_container_quiet = Some example_container_idle
   \<and> named_bucket example_container_idle 0 ''b1'' 2
   \<and> EvDestroy 2 \<notin> set (trace example_container_idle)"
proof -
  have run_quiet:
    "run [Tick 0, Tick 1] (NewBucketContainer example_cfg) = Some example_container_quiet"
    using example_run_quiet by (simp only: example_container_def)
  have run_nil: "run [] (NewBucketContainer example_cfg) = Some example_container"
    by (simp add: example_container_def)
  have mem: "example_watcher_b2 \<in> set (watchers example_container)"
    by (simp add: example_facts example_watcher_b2_def)
  then have mem_quiet: "example_watcher_b2 \<in> set (watchers example_container_quiet)"
    by (simp add: example_container_quiet_fields)
  have idle: "bucket_activity (the_bucket example_container_quiet
      (watch_bucket example_watcher_b2)) = []"
    by (simp add: example_watcher_b2_def example_container_quiet_fields)
  have active: "bucket_activity (the_bucket example_container
      (watch_bucket example_watcher_b2)) \<noteq> []"
    by (simp add: example_watcher_b2_def example_facts)
  have b1: "named_bucket example_container_quiet 0 ''b1'' 2
      \<and> MaxIdleMillis (bucket_cfg (the_bucket example_container_quiet 2)) = 0"
    by (simp add: example_container_quiet_fields named_bucket_def example_facts)
  note quiet = watcher_removes_idle_bucket [OF example_cfg_maps run_quiet]
  note start = watcher_removes_idle_bucket [OF example_cfg_maps run_nil]
  from quiet mem_quiet idle have removed:
    "named_bucket example_container_quiet (watch_ns example_watcher_b2)
       (watch_bucketName example_watcher_b2) (watch_bucket example_watcher_b2)
     \<and> trace (watch_tick example_watcher_b2 example_container_quiet) =
         trace example_container_quiet @
         [EvLock (watch_ns example_watcher_b2),
          EvDelete (watch_ns example_watcher_b2) (watch_bucketName example_watcher_b2),
          EvDestroy (watch_bucket example_watcher_b2), EvUnlock (watch_ns example_watcher_b2)]
     \<and> count_list (trace example_container_quiet)
          (EvDestroy (watch_bucket example_watcher_b2)) = 0
     \<and> count_list (trace (watch_tick example_watcher_b2 example_container_quiet))
          (EvDestroy (watch_bucket example_watcher_b2)) = 1
     \<and> example_watcher_b2 \<notin> set (watchers (watch_tick example_watcher_b2
          example_container_quiet))"
    by blast
  from start mem active have goes_on:
    "trace (watch_tick example_watcher_b2 example_container) = trace example_container
     \<and> watchers (watch_tick example_watcher_b2 example_container) =
         watchers example_container"
    by blast
  from quiet b1 example_run_quiet_idle have stays:
    "named_bucket example_container_idle 0 ''b1'' 2
     \<and> EvDestroy 2 \<notin> set (trace example_container_idle)"
    by blast
  from removed have removed':
    "named_bucket example_container_quiet 0 ''b2'' 3
     \<and> trace (watch_tick example_watcher_b2 example_container_quiet) =
         trace example_container_quiet @ [EvLock 0, EvDelete 0 ''b2'', EvDestroy 3, EvUnlock 0]
     \<and> count_list (trace example_container_quiet) (EvDestroy 3) = 0
     \<and> count_list (trace (watch_tick example_watcher_b2 example_container_quiet))
          (EvDestroy 3) = 1
     \<and> example_watcher_b2 \<notin> set (watchers (watch_tick example_watcher_b2
          example_container_quiet))"
    by (simp add: example_watcher_b2_def)
  from idle active have acts: "bucket_activity (the_bucket example_container_quiet 3) = []"
    "bucket_activity (the_bucket example_container 3) \<noteq> []"
    by (simp_all add: example_watcher_b2_def)
  show ?thesis
    using example_cfg_maps run_quiet run_nil mem mem_quiet acts b1 removed' goes_on stays
      example_run_quiet_idle
    by blast
qed

text \<open>
  C5 as stated fails in the order of the last two steps. In the example each of the two
  watchers sees a tick with no activity: the trace that the two removals add has Destroy
  on the bucket before the Unlock of the namespace, since the unlock is deferred to the
  return of \<open>watch\<close>; it is not the order Lock, Delete, Unlock, Destroy.
\<close>

theorem watcher_destroys_under_lock_counterexample:
  "run [Tick 0, Tick 0] example_container_quiet = Some example_container_idle
   \<and> bucket_activity (the_bucket example_container_quiet 3) = []
   \<and> bucket_activity (the_bucket example_container_quiet 5) = []
   \<and> trace example_container_idle =
       trace example_container_quiet @
       [EvLock 0, EvDelete 0 ''b2'', EvDestroy 3, EvUnlock 0,
        EvLock 1, EvDelete 1 ''s1'', EvDestroy 5, EvUnlock 1]
   \<and> trace example_container_idle \<noteq>
       trace example_container_quiet @
       [EvLock 0, EvDelete 0 ''b2'', EvUnlock 0, EvDestroy 3,
        EvLock 1, EvDelete 1 ''s1'', EvUnlock 1, EvDestroy 5]"
proof -
  have "bucket_activity (the_bucket example_container_quiet 3) = []
   \<and> bucket_activity (the_bucket example_container_quiet 5) = []
   \<and> trace example_container_idle =
       trace example_container_quiet @
       [EvLock 0, EvDelete 0 ''b2'', EvDestroy 3, EvUnlock 0,
        EvLock 1, EvDelete 1 ''s1'', EvDestroy 5, EvUnlock 1]
   \<and> trace example_container_idle \<noteq>
       trace example_container_quiet @
       [EvLock 0, EvDelete 0 ''b2'', EvUnlock 0, EvDestroy 3,
        EvLock 1, EvDelete 1 ''s1'', EvUnlock 1, EvDestroy 5]"
    by (simp add: example_container_quiet_fields example_container_idle_fields)
  with example_run_quiet_idle show ?thesis by (rule conjI)
qed


section \<open>What never changes\<close>

text \<open>
  What no operation changes: the container's fields and sizes only grow, every namespace
  keeps its configuration and its default, every existing bucket keeps its identity, its
  configuration and its dynamic flag.
\<close>

lemma unchanged_refl: "unchanged s s"
  by (simp add: unchanged_def)

lemma unchanged_trans: "unchanged s s1 \<Longrightarrow> unchanged s1 s2 \<Longrightarrow> unchanged s s2"
  unfolding unchanged_def by (auto simp: static_part_def)

lemma static_part_activity [simp]:
  "static_part (x\<lparr>bucket_activity := a\<rparr>) = static_part x"
  by (simp add: static_part_def)

lemma unchanged_frame:
  assumes "bc_cfg s' = bc_cfg s" "bc_namespaces s' = bc_namespaces s"
    "bc_defaultBucket s' = bc_defaultBucket s" "namespace_next s' = namespace_next s"
    "bucket_next s \<le> bucket_next s'"
    "\<And>ns. ns < namespace_next s \<Longrightarrow> ns_cfg (the_namespace s' ns) = ns_cfg (the_namespace s ns)"
    "\<And>ns. ns < namespace_next s \<Longrightarrow>
       ns_defaultBucket (the_namespace s' ns) = ns_defaultBucket (the_namespace s ns)"
    "\<And>b. b < bucket_next s \<Longrightarrow> static_part (the_bucket s' b) = static_part (the_bucket s b)"
  shows "unchanged s s'"
  using assms by (simp add: unchanged_def)

lemma unchanged_emit [simp]: "unchanged s (emit e s)" "unchanged s (fold emit es s)"
  by (rule unchanged_frame; simp)+

lemma unchanged_ReportActivity [simp]: "unchanged s (bucket_ReportActivity b s)"
  by (rule unchanged_frame) simp_all

lemma unchanged_ActivityDetected [simp]: "unchanged s (snd (bucket_ActivityDetected b s))"
  by (rule unchanged_frame) simp_all

lemma unchanged_create [simp]:
  "unchanged s (snd (createNewNamedBucketFromCfg namespace name ns c dyn s))"
  by (rule unchanged_frame) simp_all

lemma unchanged_remove [simp]: "unchanged s (watch_remove w s)"
  by (rule unchanged_frame) simp_all

lemma unchanged_then:
  "unchanged s s1 \<Longrightarrow> unchanged s (emit e s1)"
  "unchanged s s1 \<Longrightarrow> unchanged s (fold emit es s1)"
  "unchanged s s1 \<Longrightarrow> unchanged s (bucket_ReportActivity b s1)"
  "unchanged s s1 \<Longrightarrow> unchanged s (snd (bucket_ActivityDetected b s1))"
  "unchanged s s1 \<Longrightarrow> unchanged s (snd (createNewNamedBucketFromCfg namespace name ns c dyn s1))"
  "unchanged s s1 \<Longrightarrow> unchanged s (watch_remove w s1)"
  by (erule unchanged_trans, simp)+

lemma unchanged_watch_tick: "unchanged s (watch_tick w s)"
  by (cases "bucket_activity (the_bucket s (watch_bucket w)) = []")
     (simp_all add: watch_tick_idle watch_tick_active unchanged_then unchanged_refl)

lemma unchanged_FindBucket:
  assumes "FindBucket namespace name s = Some (r, s')"
  shows "unchanged s s'"
proof (cases rule: FindBucket_cases [of s namespace name])
  case unconfigured
  with assms show ?thesis
    by (cases "bc_defaultBucket s")
       (auto simp: FindBucket_return_Some FindBucket_return_None unchanged_refl)
next
  case (present ns b)
  with assms show ?thesis
    by (auto simp: FindBucket_return_Some intro!: unchanged_then unchanged_refl)
next
  case (default ns)
  with assms show ?thesis
    by (cases "ns_defaultBucket (the_namespace s ns)")
       (auto simp: FindBucket_return_Some FindBucket_return_None
          intro!: unchanged_then unchanged_refl)
next
  case (cap ns t)
  with assms show ?thesis by (auto intro!: unchanged_then unchanged_refl)
next
  case (created ns t c dyn)
  with assms show ?thesis by (auto intro!: unchanged_then unchanged_refl)
qed

lemma unchanged_step: "step a s = Some s' \<Longrightarrow> unchanged s s'"
  by (cases a) (auto simp: unchanged_refl unchanged_watch_tick dest: unchanged_FindBucket)

lemma unchanged_run: "run acts s = Some s' \<Longrightarrow> unchanged s s'"
proof (induction acts arbitrary: s)
  case Nil
  then show ?case by (simp add: unchanged_refl)
next
  case (Cons a acts)
  then show ?case
    by (auto split: option.splits dest!: unchanged_step intro: unchanged_trans)
qed


section \<open>Defaults are built by the constructor\<close>

lemma grown_refl: "grown s s"
  by (simp add: grown_def)

lemma grown_trans: "grown s s1 \<Longrightarrow> grown s1 s2 \<Longrightarrow> grown s s2"
  unfolding grown_def by auto

lemma unchanged_grown: "unchanged s s' \<Longrightarrow> grown s s'"
  by (simp add: unchanged_def grown_def)

lemma default_as_configured_grown:
  "default_as_configured s namespace cfg d \<Longrightarrow> grown s s' \<Longrightarrow>
   default_as_configured s' namespace cfg d"
  by (cases cfg) (auto simp: default_as_configured_def grown_def)

lemma unchanged_init_buckets: "unchanged s (init_buckets nsName nsp bs s)"
proof (induction bs arbitrary: s)
  case Nil
  then show ?case by (simp add: unchanged_refl)
next
  case (Cons entry bs)
  obtain bucketName bucketCfg where entry: "entry = (bucketName, bucketCfg)"
    by (cases entry)
  have "unchanged s (snd (createNewNamedBucketFromCfg nsName bucketName nsp bucketCfg False s))"
    by simp
  then show ?case
    using Cons.IH unfolding entry init_buckets.simps by (rule unchanged_trans)
qed

text \<open>One turn of the outer loop of the constructor.\<close>

lemma init_namespaces_Cons:
  "init_namespaces ((nsName, nsCfg) # nss) s =
   init_namespaces nss
     ((init_buckets nsName (namespace_next s) (Buckets nsCfg)
        (case DefaultBucket nsCfg of
           None \<Rightarrow> snd (new_namespace nsCfg s)
         | Some c \<Rightarrow>
             update_namespace (namespace_next s)
               (\<lambda>n. n\<lparr>ns_defaultBucket := Some (bucket_next s)\<rparr>)
               (snd (NewBucket nsName DEFAULT_BUCKET_NAME c False (snd (new_namespace nsCfg s))))))
      \<lparr>bc_namespaces := (bc_namespaces s)(nsName \<mapsto> namespace_next s)\<rparr>)"
  by (cases "DefaultBucket nsCfg") (simp_all add: Let_def split_beta)

lemma init_namespace_turn:
  fixes s nsName nsCfg
  defines "s2 \<equiv> (case DefaultBucket nsCfg of
           None \<Rightarrow> snd (new_namespace nsCfg s)
         | Some c \<Rightarrow>
             update_namespace (namespace_next s)
               (\<lambda>n. n\<lparr>ns_defaultBucket := Some (bucket_next s)\<rparr>)
               (snd (NewBucket nsName DEFAULT_BUCKET_NAME c False (snd (new_namespace nsCfg s)))))"
  defines "s4 \<equiv> (init_buckets nsName (namespace_next s) (Buckets nsCfg) s2)
      \<lparr>bc_namespaces := (bc_namespaces s)(nsName \<mapsto> namespace_next s)\<rparr>"
  shows "grown s s4"
    and "namespace_next s4 = Suc (namespace_next s)"
    and "bc_namespaces s4 = (bc_namespaces s)(nsName \<mapsto> namespace_next s)"
    and "ns_cfg (the_namespace s4 (namespace_next s)) = nsCfg"
    and "default_as_configured s4 nsName (DefaultBucket nsCfg)
           (ns_defaultBucket (the_namespace s4 (namespace_next s)))"
proof -
  let ?s3 = "init_buckets nsName (namespace_next s) (Buckets nsCfg) s2"
  have g2: "grown s s2"
    by (cases "DefaultBucket nsCfg") (simp_all add: s2_def grown_def)
  have n2: "namespace_next s2 = Suc (namespace_next s)"
    by (cases "DefaultBucket nsCfg") (simp_all add: s2_def)
  have cfg2: "ns_cfg (the_namespace s2 (namespace_next s)) = nsCfg"
    by (cases "DefaultBucket nsCfg") (simp_all add: s2_def)
  have d2: "default_as_configured s2 nsName (DefaultBucket nsCfg)
      (ns_defaultBucket (the_namespace s2 (namespace_next s)))"
    by (cases "DefaultBucket nsCfg")
       (simp_all add: s2_def default_as_configured_def static_part_def)
  have u3: "unchanged s2 ?s3"
    by (rule unchanged_init_buckets)
  have g4: "grown ?s3 s4" and u4: "the_namespace s4 = the_namespace ?s3"
    "namespace_next s4 = namespace_next ?s3"
    by (simp_all add: s4_def grown_def)
  show "grown s s4"
    using g2 unchanged_grown [OF u3] g4 by (blast intro: grown_trans)
  show "namespace_next s4 = Suc (namespace_next s)"
    using u3 n2 u4 by (simp add: unchanged_def)
  show "bc_namespaces s4 = (bc_namespaces s)(nsName \<mapsto> namespace_next s)"
    by (simp add: s4_def)
  show "ns_cfg (the_namespace s4 (namespace_next s)) = nsCfg"
    using u3 n2 cfg2 u4 by (simp add: unchanged_def)
  have "ns_defaultBucket (the_namespace s4 (namespace_next s)) =
      ns_defaultBucket (the_namespace s2 (namespace_next s))"
    using u3 n2 u4 by (simp add: unchanged_def)
  moreover have "grown s2 s4"
    using unchanged_grown [OF u3] g4 by (rule grown_trans)
  ultimately show "default_as_configured s4 nsName (DefaultBucket nsCfg)
      (ns_defaultBucket (the_namespace s4 (namespace_next s)))"
    using d2 by (simp add: default_as_configured_grown)
qed


lemma init_namespaces_grown:
  "grown s (init_namespaces nss s)"
  "k \<notin> fst ` set nss \<Longrightarrow> bc_namespaces (init_namespaces nss s) k = bc_namespaces s k"
proof (induction nss arbitrary: s)
  case Nil
  {
    case 1
    show ?case by (simp add: grown_refl)
  next
    case 2
    show ?case by simp
  }
next
  case (Cons entry nss)
  obtain nsName nsCfg where entry: "entry = (nsName, nsCfg)"
    by (cases entry)
  {
    case 1
    show ?case
      unfolding entry init_namespaces_Cons
      by (rule grown_trans [OF init_namespace_turn(1) Cons.IH(1)])
  next
    case 2
    then have "k \<noteq> nsName" "k \<notin> fst ` set nss"
      by (auto simp: entry)
    then show ?case
      unfolding entry init_namespaces_Cons
      by (simp add: Cons.IH(2) init_namespace_turn(3))
  }
qed

lemma init_namespaces_entries:
  assumes "distinct (map fst nss)" and "(nsName, nsCfg) \<in> set nss"
  shows "\<exists>ns < namespace_next (init_namespaces nss s).
           bc_namespaces (init_namespaces nss s) nsName = Some ns
           \<and> ns_cfg (the_namespace (init_namespaces nss s) ns) = nsCfg
           \<and> default_as_configured (init_namespaces nss s) nsName (DefaultBucket nsCfg)
                (ns_defaultBucket (the_namespace (init_namespaces nss s) ns))"
  using assms
proof (induction nss arbitrary: s)
  case Nil
  then show ?case by simp
next
  case (Cons entry nss)
  obtain k c where entry: "entry = (k, c)"
    by (cases entry)
  let ?s4 = "(init_buckets k (namespace_next s) (Buckets c)
        (case DefaultBucket c of
           None \<Rightarrow> snd (new_namespace c s)
         | Some d \<Rightarrow>
             update_namespace (namespace_next s)
               (\<lambda>n. n\<lparr>ns_defaultBucket := Some (bucket_next s)\<rparr>)
               (snd (NewBucket k DEFAULT_BUCKET_NAME d False (snd (new_namespace c s))))))
      \<lparr>bc_namespaces := (bc_namespaces s)(k \<mapsto> namespace_next s)\<rparr>"
  have unfold: "init_namespaces (entry # nss) s = init_namespaces nss ?s4"
    unfolding entry by (rule init_namespaces_Cons)
  show ?case
  proof (cases "(nsName, nsCfg) = entry")
    case True
    then have same: "k = nsName" "c = nsCfg" using entry by auto
    let ?ns = "namespace_next s"
    let ?s' = "init_namespaces nss ?s4"
    have g: "grown ?s4 ?s'"
      by (rule init_namespaces_grown(1))
    have lt4: "?ns < namespace_next ?s4"
      by (simp add: init_namespace_turn(2))
    have "nsName \<notin> fst ` set nss"
      using Cons.prems(1) entry same by auto
    then have "bc_namespaces ?s' nsName = bc_namespaces ?s4 nsName"
      by (rule init_namespaces_grown(2))
    then have m: "bc_namespaces ?s' nsName = Some ?ns"
      by (simp add: init_namespace_turn(3) same)
    have lt: "?ns < namespace_next ?s'"
      using g lt4 by (simp add: grown_def)
    have cfg: "ns_cfg (the_namespace ?s' ?ns) = nsCfg"
      using g lt4 init_namespace_turn(4) [of s k c] by (simp add: grown_def same)
    have "ns_defaultBucket (the_namespace ?s' ?ns) = ns_defaultBucket (the_namespace ?s4 ?ns)"
      using g lt4 by (simp add: grown_def)
    moreover have "default_as_configured ?s' nsName (DefaultBucket nsCfg)
        (ns_defaultBucket (the_namespace ?s4 ?ns))"
      using init_namespace_turn(5) [of s k c] g
      unfolding same by (rule default_as_configured_grown)
    ultimately have d: "default_as_configured ?s' nsName (DefaultBucket nsCfg)
        (ns_defaultBucket (the_namespace ?s' ?ns))"
      by simp
    from lt m cfg d show ?thesis
      unfolding unfold by blast
  next
    case False
    with Cons.prems have "distinct (map fst nss)" "(nsName, nsCfg) \<in> set nss"
      by auto
    then show ?thesis
      unfolding unfold by (rule Cons.IH)
  qed
qed

lemma NewBucketContainer_init:
  "NewBucketContainer cfg =
     init_namespaces (Namespaces cfg)
       (case GlobalDefaultBucket cfg of
          None \<Rightarrow> empty_system cfg
        | Some c \<Rightarrow>
            (snd (NewBucket GLOBAL_NAMESPACE DEFAULT_BUCKET_NAME c False (empty_system cfg)))
              \<lparr>bc_defaultBucket := Some (bucket_next (empty_system cfg))\<rparr>)"
  by (cases "GlobalDefaultBucket cfg")
     (simp_all add: NewBucketContainer_def Let_def split_beta)

lemma NewBucketContainer_global_default:
  "default_as_configured (NewBucketContainer cfg) GLOBAL_NAMESPACE (GlobalDefaultBucket cfg)
     (bc_defaultBucket (NewBucketContainer cfg))"
proof -
  let ?bc1 = "case GlobalDefaultBucket cfg of
          None \<Rightarrow> empty_system cfg
        | Some c \<Rightarrow>
            (snd (NewBucket GLOBAL_NAMESPACE DEFAULT_BUCKET_NAME c False (empty_system cfg)))
              \<lparr>bc_defaultBucket := Some (bucket_next (empty_system cfg))\<rparr>"
  have "default_as_configured ?bc1 GLOBAL_NAMESPACE (GlobalDefaultBucket cfg)
      (bc_defaultBucket ?bc1)"
    by (cases "GlobalDefaultBucket cfg")
       (simp_all add: default_as_configured_def static_part_def empty_system_def)
  moreover have g: "grown ?bc1 (NewBucketContainer cfg)"
    unfolding NewBucketContainer_init by (rule init_namespaces_grown(1))
  ultimately have "default_as_configured (NewBucketContainer cfg) GLOBAL_NAMESPACE
      (GlobalDefaultBucket cfg) (bc_defaultBucket ?bc1)"
    by (rule default_as_configured_grown)
  moreover have "bc_defaultBucket (NewBucketContainer cfg) = bc_defaultBucket ?bc1"
    using g by (simp add: grown_def)
  ultimately show ?thesis by simp
qed

lemma NewBucketContainer_namespace_defaults:
  assumes "config_maps cfg" and "(nsName, nsCfg) \<in> set (Namespaces cfg)"
  shows "\<exists>ns < namespace_next (NewBucketContainer cfg).
           bc_namespaces (NewBucketContainer cfg) nsName = Some ns
           \<and> ns_cfg (the_namespace (NewBucketContainer cfg) ns) = nsCfg
           \<and> default_as_configured (NewBucketContainer cfg) nsName (DefaultBucket nsCfg)
                (ns_defaultBucket (the_namespace (NewBucketContainer cfg) ns))"
  unfolding NewBucketContainer_init
  using assms by (intro init_namespaces_entries) (simp_all add: config_maps_def)


section \<open>Defaults are never evicted\<close>

text \<open>
  C9. The container that \<open>NewBucketContainer\<close> returns has the global default and every
  namespace default as the configuration asks: none when none is configured, otherwise a
  bucket that the constructor created, static, under the reserved name. In every state
  reached from there the container's default and every namespace's default are the very
  same buckets and are what they were, and a default bucket is one that the constructor
  created, is static, has no watcher waiting on it and has not been destroyed.
\<close>

theorem defaults_never_evicted:
  assumes "config_maps cfg" and "run acts (NewBucketContainer cfg) = Some s"
  shows "default_as_configured (NewBucketContainer cfg) GLOBAL_NAMESPACE
           (GlobalDefaultBucket cfg) (bc_defaultBucket (NewBucketContainer cfg))
       \<and> (\<forall>nsName nsCfg. (nsName, nsCfg) \<in> set (Namespaces cfg) \<longrightarrow>
            (\<exists>ns < namespace_next (NewBucketContainer cfg).
               bc_namespaces (NewBucketContainer cfg) nsName = Some ns
               \<and> ns_cfg (the_namespace (NewBucketContainer cfg) ns) = nsCfg
               \<and> default_as_configured (NewBucketContainer cfg) nsName (DefaultBucket nsCfg)
                    (ns_defaultBucket (the_namespace (NewBucketContainer cfg) ns))))
       \<and> unchanged (NewBucketContainer cfg) s
       \<and> (\<forall>d. default_bucket s d \<longrightarrow>
            default_bucket (NewBucketContainer cfg) d
            \<and> d < bucket_next (NewBucketContainer cfg)
            \<and> \<not> bucket_dyn (the_bucket s d)
            \<and> (\<forall>w \<in> set (watchers s). watch_bucket w \<noteq> d)
            \<and> EvDestroy d \<notin> set (trace s))"
proof -
  let ?s0 = "NewBucketContainer cfg"
  have c0: "consistent ?s0"
    using assms(1) by (rule consistent_NewBucketContainer)
  have c: "consistent s"
    using assms by (rule reachable_consistent)
  have u: "unchanged ?s0 s"
    using assms(2) by (rule unchanged_run)
  have global: "default_as_configured ?s0 GLOBAL_NAMESPACE (GlobalDefaultBucket cfg)
      (bc_defaultBucket ?s0)"
    by (rule NewBucketContainer_global_default)
  have namespaces: "\<exists>ns < namespace_next ?s0.
           bc_namespaces ?s0 nsName = Some ns
           \<and> ns_cfg (the_namespace ?s0 ns) = nsCfg
           \<and> default_as_configured ?s0 nsName (DefaultBucket nsCfg)
                (ns_defaultBucket (the_namespace ?s0 ns))"
    if "(nsName, nsCfg) \<in> set (Namespaces cfg)" for nsName nsCfg
    using assms(1) that by (rule NewBucketContainer_namespace_defaults)
  have defaults: "default_bucket ?s0 d
            \<and> d < bucket_next ?s0
            \<and> \<not> bucket_dyn (the_bucket s d)
            \<and> (\<forall>w \<in> set (watchers s). watch_bucket w \<noteq> d)
            \<and> EvDestroy d \<notin> set (trace s)"
    if d: "default_bucket s d" for d
  proof -
    have d0: "default_bucket ?s0 d"
      using d u by (auto simp: default_bucket_def unchanged_def)
    moreover have "d < bucket_next ?s0"
      using consistent_default [OF c0 d0] by simp
    moreover have "\<not> bucket_dyn (the_bucket s d)" "EvDestroy d \<notin> set (trace s)"
      using consistent_default [OF c d] by simp_all
    moreover have "watch_bucket w \<noteq> d" if "w \<in> set (watchers s)" for w
      using consistent_watcher [OF c that]
        consistent_named [OF c, of "watch_ns w" "watch_bucketName w" "watch_bucket w"] d
      by auto
    ultimately show ?thesis by blast
  qed
  from global namespaces u defaults show ?thesis
    by blast
qed

theorem defaults_never_evicted_witness:
  "config_maps example_cfg
   \<and> run [Tick 0, Tick 1, Tick 0, Tick 0] (NewBucketContainer example_cfg)
       = Some example_container_idle
   \<and> default_as_configured example_container GLOBAL_NAMESPACE
       (Some \<lparr>Rate = 10, Capacity = 10, MaxIdleMillis = 0\<rparr>) (Some 0)
   \<and> (''ns_d'', snd (Namespaces example_cfg ! 1)) \<in> set (Namespaces example_cfg)
   \<and> bc_namespaces example_container ''ns_d'' = Some 1
   \<and> default_as_configured example_container ''ns_d''
       (Some \<lparr>Rate = 2, Capacity = 2, MaxIdleMillis = 0\<rparr>) (Some 4)
   \<and> unchanged example_container example_container_idle
   \<and> default_bucket example_container_idle 0
   \<and> default_bucket example_container_idle 4
   \<and> \<not> bucket_dyn (the_bucket example_container_idle 4)
   \<and> EvDestroy 4 \<notin> set (trace example_container_idle)"
proof -
  have run: "run [Tick 0, Tick 1, Tick 0, Tick 0] (NewBucketContainer example_cfg)
      = Some example_container_idle"
    using example_run_idle by (simp only: example_container_def)
  note T = defaults_never_evicted [OF example_cfg_maps run, folded example_container_def]
  have entry: "(''ns_d'', snd (Namespaces example_cfg ! 1)) \<in> set (Namespaces example_cfg)"
    by (simp add: example_cfg_def)
  from T have u: "unchanged example_container example_container_idle"
    by blast
  have d0: "default_bucket example_container 0" "default_bucket example_container 4"
    by (auto simp: default_bucket_def example_facts intro: exI [of _ 1])
  with u have d: "default_bucket example_container_idle 0"
    "default_bucket example_container_idle 4"
    by (auto simp: default_bucket_def unchanged_def)
  from T d(2) have safe: "\<not> bucket_dyn (the_bucket example_container_idle 4)
      \<and> EvDestroy 4 \<notin> set (trace example_container_idle)"
    by blast
  from T have "default_as_configured example_container GLOBAL_NAMESPACE
      (GlobalDefaultBucket example_cfg) (bc_defaultBucket example_container)"
    by blast
  then have g: "default_as_configured example_container GLOBAL_NAMESPACE
      (Some \<lparr>Rate = 10, Capacity = 10, MaxIdleMillis = 0\<rparr>) (Some 0)"
    by (simp add: example_facts example_cfg_def)
  from T entry have "\<exists>ns < namespace_next example_container.
      bc_namespaces example_container ''ns_d'' = Some ns
      \<and> ns_cfg (the_namespace example_container ns) = snd (Namespaces example_cfg ! 1)
      \<and> default_as_configured example_container ''ns_d''
           (DefaultBucket (snd (Namespaces example_cfg ! 1)))
           (ns_defaultBucket (the_namespace example_container ns))"
    by blast
  then have n: "bc_namespaces example_container ''ns_d'' = Some 1
      \<and> default_as_configured example_container ''ns_d''
           (Some \<lparr>Rate = 2, Capacity = 2, MaxIdleMillis = 0\<rparr>) (Some 4)"
    by (auto simp: example_facts example_cfg_def)
  from example_cfg_maps run g entry n u d safe show ?thesis
    by blast
qed


section \<open>Pointers of a reachable container\<close>

text \<open>
  Every pointer that a reachable container holds or follows is the address of an object
  that exists, so \<open>the_bucket\<close> and \<open>the_namespace\<close> are never applied to an address
  that has no object.
\<close>

lemma heap_domains [simp]:
  "dom (bucket_heap (update_bucket b f s)) = insert b (dom (bucket_heap s))"
  "dom (namespace_heap (update_namespace ns g s)) = insert ns (dom (namespace_heap s))"
  "dom (bucket_heap (bucket_ReportActivity b s)) = insert b (dom (bucket_heap s))"
  "dom (bucket_heap (snd (bucket_ActivityDetected b s))) = insert b (dom (bucket_heap s))"
  "dom (bucket_heap (snd (NewBucket namespace name c dyn s))) =
     insert (bucket_next s) (dom (bucket_heap s))"
  "dom (bucket_heap (snd (createNewNamedBucketFromCfg namespace name ns c dyn s))) =
     insert (bucket_next s) (dom (bucket_heap s))"
  "dom (namespace_heap (snd (createNewNamedBucketFromCfg namespace name ns c dyn s))) =
     insert ns (dom (namespace_heap s))"
  "dom (bucket_heap (watch_remove w s)) = dom (bucket_heap s)"
  "dom (namespace_heap (watch_remove w s)) = insert (watch_ns w) (dom (namespace_heap s))"
  "dom (bucket_heap (snd (new_namespace nsCfg s))) = dom (bucket_heap s)"
  "dom (namespace_heap (snd (new_namespace nsCfg s))) =
     insert (namespace_next s) (dom (namespace_heap s))"
  by (auto simp: update_bucket_def update_namespace_def bucket_ReportActivity_def
      bucket_ActivityDetected_def NewBucket_def createNewNamedBucketFromCfg_def
      watch_remove_def new_namespace_def bucket_Destroy_def emit_def go_watch_def
      Let_def split_beta)

lemma allocated_frame:
  "allocated s \<Longrightarrow> dom (bucket_heap s') = dom (bucket_heap s) \<Longrightarrow>
   dom (namespace_heap s') = dom (namespace_heap s) \<Longrightarrow>
   bucket_next s' = bucket_next s \<Longrightarrow> namespace_next s' = namespace_next s \<Longrightarrow>
   allocated s'"
  by (simp add: allocated_def)

lemma allocated_emit: "allocated s \<Longrightarrow> allocated (emit e s)"
  "allocated s \<Longrightarrow> allocated (fold emit es s)"
  by (erule allocated_frame; simp)+

lemma allocated_ReportActivity:
  "allocated s \<Longrightarrow> b < bucket_next s \<Longrightarrow> allocated (bucket_ReportActivity b s)"
  by (auto simp: allocated_def)

lemma allocated_ActivityDetected:
  "allocated s \<Longrightarrow> b < bucket_next s \<Longrightarrow> allocated (snd (bucket_ActivityDetected b s))"
  by (auto simp: allocated_def)

lemma allocated_create:
  "allocated s \<Longrightarrow> ns < namespace_next s \<Longrightarrow>
   allocated (snd (createNewNamedBucketFromCfg namespace name ns c dyn s))"
  by (auto simp: allocated_def)

lemma allocated_remove:
  "allocated s \<Longrightarrow> watch_ns w < namespace_next s \<Longrightarrow> allocated (watch_remove w s)"
  by (auto simp: allocated_def)

lemma allocated_watch_tick:
  assumes "consistent s" and "allocated s" and "w \<in> set (watchers s)"
  shows "allocated (watch_tick w s)"
proof -
  from consistent_watcher [OF assms(1,3)]
  have n: "named_bucket s (watch_ns w) (watch_bucketName w) (watch_bucket w)"
    by simp
  then have ns: "watch_ns w < namespace_next s"
    by (simp add: named_bucket_def)
  have b: "watch_bucket w < bucket_next s"
    using consistent_named [OF assms(1) n] by simp
  show ?thesis
    by (cases "bucket_activity (the_bucket s (watch_bucket w)) = []")
       (simp_all add: watch_tick_idle watch_tick_active allocated_remove
          allocated_ActivityDetected assms(2) b ns)
qed

lemma allocated_FindBucket:
  assumes c: "consistent s" and a: "allocated s"
    and find: "FindBucket namespace name s = Some (r, s')"
  shows "allocated s'"
proof (cases rule: FindBucket_cases [of s namespace name])
  case unconfigured
  show ?thesis
  proof (cases "bc_defaultBucket s")
    case None
    with unconfigured find a show ?thesis by (simp add: FindBucket_return_None)
  next
    case (Some b)
    then have "default_bucket s b" by (simp add: default_bucket_def)
    then have "b < bucket_next s" using consistent_default [OF c] by simp
    with unconfigured find a Some show ?thesis
      by (auto simp: FindBucket_return_Some intro!: allocated_ReportActivity)
  qed
next
  case (present ns b)
  have "ns < namespace_next s"
    using c present(1) by (rule consistent_namespaces)
  with present(2) have "named_bucket s ns name b" by (simp add: named_bucket_def)
  then have "b < bucket_next s" using consistent_named [OF c] by simp
  with present find a show ?thesis
    by (auto simp: FindBucket_return_Some intro!: allocated_ReportActivity allocated_emit)
next
  case (default ns)
  have ns: "ns < namespace_next s"
    using c default(1) by (rule consistent_namespaces)
  show ?thesis
  proof (cases "ns_defaultBucket (the_namespace s ns)")
    case None
    with default find a show ?thesis
      by (auto simp: FindBucket_return_None intro!: allocated_emit)
  next
    case (Some b)
    with ns have "default_bucket s b" by (auto simp: default_bucket_def)
    then have "b < bucket_next s" using consistent_default [OF c] by simp
    with default find a Some show ?thesis
      by (auto simp: FindBucket_return_Some intro!: allocated_ReportActivity allocated_emit)
  qed
next
  case (cap ns t)
  with find a show ?thesis by (auto intro!: allocated_emit)
next
  case (created ns t c0 dyn)
  have "ns < namespace_next s"
    using c created(1) by (rule consistent_namespaces)
  with created find a show ?thesis
    by (auto intro!: allocated_emit allocated_ReportActivity allocated_create)
qed

lemma allocated_step:
  assumes "consistent s" and "allocated s" and "step a s = Some s'"
  shows "allocated s'"
proof (cases a)
  case (Find namespace name)
  with assms show ?thesis by (auto dest: allocated_FindBucket)
next
  case (Tick i)
  with assms show ?thesis by (auto intro: allocated_watch_tick split: if_splits)
next
  case (Touch b)
  with assms show ?thesis by (auto intro: allocated_ReportActivity split: if_splits)
qed

lemma allocated_run:
  "consistent s \<Longrightarrow> allocated s \<Longrightarrow> run acts s = Some s' \<Longrightarrow> allocated s'"
proof (induction acts arbitrary: s)
  case Nil
  then show ?case by simp
next
  case (Cons a acts)
  from Cons.prems(3) obtain s1 where s1: "step a s = Some s1" "run acts s1 = Some s'"
    by (auto split: option.splits)
  have "consistent s1" using Cons.prems(1) s1(1) by (rule consistent_step)
  moreover have "allocated s1" using Cons.prems(1,2) s1(1) by (rule allocated_step)
  ultimately show ?case using s1(2) by (rule Cons.IH)
qed

lemma allocated_init_buckets:
  "allocated s \<Longrightarrow> nsp < namespace_next s \<Longrightarrow> allocated (init_buckets nsName nsp bs s)"
proof (induction bs arbitrary: s)
  case Nil
  then show ?case by simp
next
  case (Cons entry bs)
  obtain bucketName bucketCfg where entry: "entry = (bucketName, bucketCfg)"
    by (cases entry)
  have "allocated (snd (createNewNamedBucketFromCfg nsName bucketName nsp bucketCfg False s))"
    using Cons.prems by (rule allocated_create)
  then show ?case
    using Cons.prems(2) unfolding entry init_buckets.simps by (intro Cons.IH) simp_all
qed

lemma allocated_init_namespaces: "allocated s \<Longrightarrow> allocated (init_namespaces nss s)"
proof (induction nss arbitrary: s)
  case Nil
  then show ?case by simp
next
  case (Cons entry nss)
  obtain nsName nsCfg where entry: "entry = (nsName, nsCfg)"
    by (cases entry)
  let ?s2 = "case DefaultBucket nsCfg of
           None \<Rightarrow> snd (new_namespace nsCfg s)
         | Some c \<Rightarrow>
             update_namespace (namespace_next s)
               (\<lambda>n. n\<lparr>ns_defaultBucket := Some (bucket_next s)\<rparr>)
               (snd (NewBucket nsName DEFAULT_BUCKET_NAME c False (snd (new_namespace nsCfg s))))"
  have a2: "allocated ?s2" and n2: "namespace_next s < namespace_next ?s2"
    using Cons.prems by (cases "DefaultBucket nsCfg"; auto simp: allocated_def)+
  have "allocated (init_buckets nsName (namespace_next s) (Buckets nsCfg) ?s2)"
    using a2 n2 by (rule allocated_init_buckets)
  then have "allocated ((init_buckets nsName (namespace_next s) (Buckets nsCfg) ?s2)
      \<lparr>bc_namespaces := (bc_namespaces s)(nsName \<mapsto> namespace_next s)\<rparr>)"
    by (simp add: allocated_def)
  then show ?case
    unfolding entry init_namespaces_Cons by (rule Cons.IH)
qed

lemma allocated_NewBucketContainer: "allocated (NewBucketContainer cfg)"
  unfolding NewBucketContainer_init
  by (rule allocated_init_namespaces)
     (cases "GlobalDefaultBucket cfg"; auto simp: allocated_def empty_system_def)

lemma reachable_allocated:
  assumes "config_maps cfg" and "run acts (NewBucketContainer cfg) = Some s"
  shows "allocated s"
  using consistent_NewBucketContainer [OF assms(1)] allocated_NewBucketContainer assms(2)
  by (rule allocated_run)

text \<open>
  In a reachable state every bucket that the container, a namespace or a watcher points
  to exists, and so does every namespace that the container or a watcher points to.
\<close>

lemma reachable_pointers:
  assumes "config_maps cfg" and "run acts (NewBucketContainer cfg) = Some s"
  shows "bc_namespaces s namespace = Some ns \<Longrightarrow> namespace_heap s ns \<noteq> None"
    and "named_bucket s ns name b \<Longrightarrow> namespace_heap s ns \<noteq> None \<and> bucket_heap s b \<noteq> None"
    and "default_bucket s b \<Longrightarrow> bucket_heap s b \<noteq> None"
    and "w \<in> set (watchers s) \<Longrightarrow>
           namespace_heap s (watch_ns w) \<noteq> None \<and> bucket_heap s (watch_bucket w) \<noteq> None"
proof -
  have c: "consistent s" using assms by (rule reachable_consistent)
  have a: "allocated s" using assms by (rule reachable_allocated)
  have bucket: "bucket_heap s b \<noteq> None" if "b < bucket_next s" for b
    using a that by (auto simp: allocated_def)
  have namespace: "namespace_heap s ns \<noteq> None" if "ns < namespace_next s" for ns
    using a that by (auto simp: allocated_def)
  show "bc_namespaces s namespace = Some ns \<Longrightarrow> namespace_heap s ns \<noteq> None"
    using consistent_namespaces [OF c] namespace by blast
  show named: "named_bucket s ns name b \<Longrightarrow>
      namespace_heap s ns \<noteq> None \<and> bucket_heap s b \<noteq> None" for ns name b
    using consistent_named [OF c, of ns name b] bucket [of b] namespace [of ns]
    by (auto simp: named_bucket_def)
  show "default_bucket s b \<Longrightarrow> bucket_heap s b \<noteq> None"
    using consistent_default [OF c, of b] bucket by blast
  show "w \<in> set (watchers s) \<Longrightarrow>
      namespace_heap s (watch_ns w) \<noteq> None \<and> bucket_heap s (watch_bucket w) \<noteq> None"
    using consistent_watcher [OF c, of w] named by blast
qed

end
